theory Spec2Isabelle
  imports Main "HOL-Library.AList"
begin

section \<open>Plan data model (lib/spec.ts)\<close>

text \<open>
  Strings are lists of 8-bit characters read as ASCII text. Field names that clash with
  Isabelle keywords or HOL constants carry a prefix: \<open>from\<close> of an input is
  \<open>input_from\<close>, \<open>id\<close> of an agent is \<open>agent_id\<close>, and so on. The optional
  \<open>from\<close> of an input is an \<open>option\<close>. The presentation-only fields of the canned
  templates (businessOutcome, analogy, ...) are not part of the AgentNode interface and
  are left out, as are the optional notes of a plan, which no plan of the sources sets;
  an agent without notes or tools has the empty list.
\<close>

datatype AgentType =
  Orchestrator | Retriever | Extractor | Classifier | Generator | ToolExecutor | HumanGate | Notifier

record AgentInput =
  input_from :: "string option"
  input_name :: string

record AgentOutput =
  output_name :: string

record AgentNode =
  agent_id :: string
  agent_name :: string
  agent_type :: AgentType
  summary :: string
  inputs :: "AgentInput list"
  outputs :: "AgentOutput list"
  suggestedTools :: "string list"
  agent_notes :: "string list"

record EdgeSpec =
  edge_from :: string
  edge_to :: string
  edge_data :: string

record AgentPlan =
  version :: string
  title :: string
  description :: string
  agents :: "AgentNode list"
  edges :: "EdgeSpec list"
  dataSchemas :: "(string \<times> string list) list"

record ValidationResult =
  ok :: bool
  errors :: "string list"
  warnings :: "string list"

section \<open>validatePlan (lib/spec.ts)\<close>

text \<open>
  A JavaScript \<open>Set\<close> iterates in insertion order and ignores a value it already
  holds: \<open>new_Set xs\<close> keeps the first occurrence of every element.
\<close>

definition set_add :: "'a \<Rightarrow> 'a list \<Rightarrow> 'a list" where
  "set_add x s = (if x \<in> set s then s else s @ [x])"

definition new_Set :: "'a list \<Rightarrow> 'a list" where
  "new_Set xs = fold set_add xs []"

definition agentIds :: "AgentPlan \<Rightarrow> string list" where
  "agentIds plan = new_Set (map agent_id (agents plan))"

text \<open>Step 1: every edge must reference existing agents. \<open>sq\<close> is the apostrophe.\<close>

abbreviation sq :: string where
  "sq \<equiv> [CHR 0x27]"

definition edgeErrors :: "string list \<Rightarrow> EdgeSpec \<Rightarrow> string list" where
  "edgeErrors ids edge =
     (if edge_from edge \<notin> set ids
      then [''Edge references unknown 'from' agent: '' @ edge_from edge] else []) @
     (if edge_to edge \<notin> set ids
      then [''Edge references unknown 'to' agent: '' @ edge_to edge] else [])"

text \<open>
  Step 2: \<open>input.from && !agentIds.has(input.from)\<close>. An absent \<open>from\<close> and the empty
  string are both falsy.
\<close>

definition inputErrors :: "string list \<Rightarrow> AgentNode \<Rightarrow> AgentInput \<Rightarrow> string list" where
  "inputErrors ids agent input =
     (case input_from input of
        None \<Rightarrow> []
      | Some f \<Rightarrow>
          if f \<noteq> [] \<and> f \<notin> set ids
          then [''Agent '' @ sq @ agent_name agent @ sq @ '' input '' @ sq @ input_name input @
                sq @ '' references unknown agent: '' @ f]
          else [])"

text \<open>Step 3: outputs that no edge consumes, on agents that have an outgoing edge.\<close>

definition consumedOutputs :: "AgentPlan \<Rightarrow> string list" where
  "consumedOutputs plan = new_Set (map (\<lambda>e. edge_from e @ '':'' @ edge_data e) (edges plan))"

definition hasOutgoingEdge :: "AgentPlan \<Rightarrow> AgentNode \<Rightarrow> bool" where
  "hasOutgoingEdge plan agent = list_ex (\<lambda>e. edge_from e = agent_id agent) (edges plan)"

definition outputWarnings :: "AgentPlan \<Rightarrow> AgentNode \<Rightarrow> AgentOutput \<Rightarrow> string list" where
  "outputWarnings plan agent output =
     (let key = agent_id agent @ '':'' @ output_name output in
      if key \<notin> set (consumedOutputs plan) then
        (if hasOutgoingEdge plan agent
         then [''Agent '' @ sq @ agent_name agent @ sq @ '' output '' @ sq @ output_name output @
               sq @ '' is not consumed by any edge'']
         else [])
      else [])"

text \<open>
  Step 4: the adjacency map. A JavaScript \<open>Map\<close> is an association list in insertion
  order; \<open>adjacency.get(edge.from)?.push(edge.to)\<close> does nothing for an unknown source.
\<close>

definition addEdge :: "EdgeSpec \<Rightarrow> (string \<times> string list) list \<Rightarrow> (string \<times> string list) list" where
  "addEdge edge adj =
     (case map_of adj (edge_from edge) of
        None \<Rightarrow> adj
      | Some ns \<Rightarrow> AList.update (edge_from edge) (ns @ [edge_to edge]) adj)"

definition adjacency :: "string list \<Rightarrow> EdgeSpec list \<Rightarrow> (string \<times> string list) list" where
  "adjacency ids es = fold addEdge es (map (\<lambda>i. (i, [])) ids)"

definition neighbors :: "(string \<times> string list) list \<Rightarrow> string \<Rightarrow> string list" where
  "neighbors adj node = (case map_of adj node of None \<Rightarrow> [] | Some ns \<Rightarrow> ns)"

text \<open>
  The recursive \<open>hasCycle\<close> closure mutates the sets \<open>visited\<close> and \<open>recStack\<close>; the
  model threads both through every call and returns them. The first argument bounds
  the depth of the recursion: running out of it is \<open>None\<close>. \<open>forNeighbors\<close> is the
  \<open>for\<close> loop in the body of \<open>hasCycle\<close>; on \<open>return true\<close> the node stays on
  \<open>recStack\<close>, as in the source.
\<close>

type_synonym dfs_state = "string set \<times> string set"

fun hasCycle :: "nat \<Rightarrow> (string \<times> string list) list \<Rightarrow> string \<Rightarrow> dfs_state \<Rightarrow> (bool \<times> dfs_state) option"
  and forNeighbors :: "nat \<Rightarrow> (string \<times> string list) list \<Rightarrow> string list \<Rightarrow> dfs_state \<Rightarrow> (bool \<times> dfs_state) option"
where
  "hasCycle 0 adj node st = None"
| "hasCycle (Suc fuel) adj node (visited, recStack) =
     (case forNeighbors fuel adj (neighbors adj node) (insert node visited, insert node recStack) of
        None \<Rightarrow> None
      | Some (True, st) \<Rightarrow> Some (True, st)
      | Some (False, (visited', recStack')) \<Rightarrow> Some (False, (visited', recStack' - {node})))"
| "forNeighbors fuel adj [] st = Some (False, st)"
| "forNeighbors fuel adj (neighbor # rest) (visited, recStack) =
     (if neighbor \<notin> visited then
        (case hasCycle fuel adj neighbor (visited, recStack) of
           None \<Rightarrow> None
         | Some (True, st) \<Rightarrow> Some (True, st)
         | Some (False, st) \<Rightarrow> forNeighbors fuel adj rest st)
      else if neighbor \<in> recStack then Some (True, (visited, recStack))
      else forNeighbors fuel adj rest (visited, recStack))"

text \<open>The final loop over \<open>agentIds\<close>, which stops at the first cycle found.\<close>

fun detectCycle :: "nat \<Rightarrow> (string \<times> string list) list \<Rightarrow> string list \<Rightarrow> dfs_state \<Rightarrow> bool option" where
  "detectCycle fuel adj [] st = Some False"
| "detectCycle fuel adj (i # ids) (visited, recStack) =
     (if i \<notin> visited then
        (case hasCycle fuel adj i (visited, recStack) of
           None \<Rightarrow> None
         | Some (True, st) \<Rightarrow> Some True
         | Some (False, st) \<Rightarrow> detectCycle fuel adj ids st)
      else detectCycle fuel adj ids (visited, recStack))"

definition cycleError :: string where
  "cycleError = ''The agent graph contains a cycle, which is not allowed''"

definition planErrors :: "AgentPlan \<Rightarrow> string list" where
  "planErrors plan =
     concat (map (edgeErrors (agentIds plan)) (edges plan)) @
     concat (map (\<lambda>agent. concat (map (inputErrors (agentIds plan) agent) (inputs agent))) (agents plan))"

definition planWarnings :: "AgentPlan \<Rightarrow> string list" where
  "planWarnings plan =
     concat (map (\<lambda>agent. concat (map (outputWarnings plan agent) (outputs agent))) (agents plan))"

text \<open>
  The depth of the search never exceeds the number of distinct nodes, which is at most
  the number of agents plus the number of edges (lemma \<open>detectCycle_total\<close> below), so
  the bound handed to the search is never reached.
\<close>

definition dfsFuel :: "AgentPlan \<Rightarrow> nat" where
  "dfsFuel plan = Suc (length (agentIds plan) + length (edges plan))"

definition validatePlan :: "AgentPlan \<Rightarrow> ValidationResult option" where
  "validatePlan plan =
     (case detectCycle (dfsFuel plan) (adjacency (agentIds plan) (edges plan)) (agentIds plan) ({}, {}) of
        None \<Rightarrow> None
      | Some cyc \<Rightarrow>
          (let errs = planErrors plan @ (if cyc then [cycleError] else [])
           in Some \<lparr>ok = (errs = []), errors = errs, warnings = planWarnings plan\<rparr>))"

text \<open>
  The source itself puts no bound on the recursion of \<open>hasCycle\<close>: the call stack of the
  engine does. The search nests one call of \<open>hasCycle\<close> per node of the path it follows,
  and on a plan whose paths are longer than the stack has room for, \<open>validatePlan\<close> raises
  a \<open>RangeError\<close> and returns nothing. \<open>validatePlan\<close> above is the validator on a stack
  deep enough for the plan. \<open>validatePlanWithin\<close> is the validator on a stack with room
  for \<open>depth\<close> nested calls of \<open>hasCycle\<close>, whatever \<open>depth\<close> is; \<open>None\<close> is the
  \<open>RangeError\<close>.
\<close>

definition validatePlanWithin :: "nat \<Rightarrow> AgentPlan \<Rightarrow> ValidationResult option" where
  "validatePlanWithin depth plan =
     (case detectCycle depth (adjacency (agentIds plan) (edges plan)) (agentIds plan) ({}, {}) of
        None \<Rightarrow> None
      | Some cyc \<Rightarrow>
          (let errs = planErrors plan @ (if cyc then [cycleError] else [])
           in Some \<lparr>ok = (errs = []), errors = errs, warnings = planWarnings plan\<rparr>))"

section \<open>JavaScript strings and regular expressions\<close>

text \<open>
  The character classes of the regular expressions, on ASCII: \<open>\s\<close> is tab, line feed,
  vertical tab, form feed, carriage return and space; \<open>\w\<close> is a letter, a digit or the
  underscore; \<open>.\<close> is any character but a line terminator. \<open>toLowerCase\<close>,
  \<open>toUpperCase\<close> and the \<open>i\<close> flag act on the letters A to Z and a to z and leave
  every other character as it is.
\<close>

definition isSpace :: "char \<Rightarrow> bool" where
  "isSpace c = (c \<in> set [CHR 0x09, CHR 0x0A, CHR 0x0B, CHR 0x0C, CHR 0x0D, CHR '' ''])"

definition isUpper :: "char \<Rightarrow> bool" where
  "isUpper c = (c \<in> set ''ABCDEFGHIJKLMNOPQRSTUVWXYZ'')"

definition isLower :: "char \<Rightarrow> bool" where
  "isLower c = (c \<in> set ''abcdefghijklmnopqrstuvwxyz'')"

definition isDigit :: "char \<Rightarrow> bool" where
  "isDigit c = (c \<in> set ''0123456789'')"

definition isAlnum :: "char \<Rightarrow> bool" where
  "isAlnum c = (isLower c \<or> isUpper c \<or> isDigit c)"

definition isWordChar :: "char \<Rightarrow> bool" where
  "isWordChar c = (isAlnum c \<or> c = CHR ''_'')"

definition toLowerChar :: "char \<Rightarrow> char" where
  "toLowerChar c =
     (case map_of (zip ''ABCDEFGHIJKLMNOPQRSTUVWXYZ'' ''abcdefghijklmnopqrstuvwxyz'') c of
        None \<Rightarrow> c | Some l \<Rightarrow> l)"

definition toUpperChar :: "char \<Rightarrow> char" where
  "toUpperChar c =
     (case map_of (zip ''abcdefghijklmnopqrstuvwxyz'' ''ABCDEFGHIJKLMNOPQRSTUVWXYZ'') c of
        None \<Rightarrow> c | Some u \<Rightarrow> u)"

definition toLowerCase :: "string \<Rightarrow> string" where
  "toLowerCase s = map toLowerChar s"

text \<open>\<open>s.includes(sub)\<close>: \<open>sub\<close> occurs in \<open>s\<close> as a contiguous substring.\<close>

fun startsWith :: "string \<Rightarrow> string \<Rightarrow> bool" where
  "startsWith s [] = True"
| "startsWith [] (p # ps) = False"
| "startsWith (c # cs) (p # ps) = (c = p \<and> startsWith cs ps)"

fun str_includes :: "string \<Rightarrow> string \<Rightarrow> bool" where
  "str_includes [] sub = (sub = [])"
| "str_includes (c # cs) sub = (startsWith (c # cs) sub \<or> str_includes cs sub)"

definition trim :: "string \<Rightarrow> string" where
  "trim s = rev (dropWhile isSpace (rev (dropWhile isSpace s)))"

text \<open>\<open>str.charAt(0).toUpperCase() + str.slice(1)\<close>.\<close>

fun capitalize :: "string \<Rightarrow> string" where
  "capitalize [] = []"
| "capitalize (c # cs) = toUpperChar c # cs"

text \<open>\<open>xs.join(sep)\<close>.\<close>

fun join :: "string \<Rightarrow> string list \<Rightarrow> string" where
  "join sep [] = []"
| "join sep [x] = x"
| "join sep (x # y # ys) = x @ sep @ join sep (y # ys)"

text \<open>The decimal rendering of a non-negative integer inside a template literal.\<close>

fun string_of_nat :: "nat \<Rightarrow> string" where
  "string_of_nat n =
     (if n < 10 then [''0123456789'' ! n]
      else string_of_nat (n div 10) @ [''0123456789'' ! (n mod 10)])"

declare string_of_nat.simps [simp del]

text \<open>
  The regular expressions of the sources use literals, the classes above under \<open>*\<close> and
  \<open>+\<close>, \<open>\b\<close>, \<open>$\<close>, sequence and alternation. \<open>rmatch\<close> is a backtracking
  matcher: at a position (the text left, and the character before it, which \<open>\b\<close> reads)
  it lists the ways the expression can match there, as the text left after each, in the
  order in which backtracking tries them (a greedy quantifier tries its longest run first,
  an alternation its left branch first). The match JavaScript reports is the first of
  the list. The flag is \<open>True\<close> for an expression with the \<open>i\<close> flag.
\<close>

datatype cclass = WhiteSpace | AnyChar | NonAlnum

fun inClass :: "cclass \<Rightarrow> char \<Rightarrow> bool" where
  "inClass WhiteSpace c = isSpace c"
| "inClass AnyChar c = (c \<noteq> CHR 0x0A \<and> c \<noteq> CHR 0x0D)"
| "inClass NonAlnum c = (\<not> isAlnum c)"

datatype regex =
    Lit string
  | One cclass
  | Star cclass
  | Plus cclass
  | WordBoundary
  | EndOfInput
  | Seq regex regex
  | Alt regex regex

fun seqs :: "regex \<Rightarrow> regex list \<Rightarrow> regex" where
  "seqs r [] = r"
| "seqs r (r' # rs) = Seq r (seqs r' rs)"

fun alts :: "regex \<Rightarrow> regex list \<Rightarrow> regex" where
  "alts r [] = r"
| "alts r (r' # rs) = Alt r (alts r' rs)"

type_synonym position = "char option \<times> string"

fun litMatch :: "bool \<Rightarrow> string \<Rightarrow> position \<Rightarrow> position list" where
  "litMatch ic [] pos = [pos]"
| "litMatch ic (l # ls) (prev, []) = []"
| "litMatch ic (l # ls) (prev, c # cs) =
     (if c = l \<or> (ic \<and> toLowerChar c = toLowerChar l) then litMatch ic ls (Some c, cs) else [])"

fun starMatch :: "cclass \<Rightarrow> position \<Rightarrow> position list" where
  "starMatch k (prev, []) = [(prev, [])]"
| "starMatch k (prev, c # cs) =
     (if inClass k c then starMatch k (Some c, cs) @ [(prev, c # cs)] else [(prev, c # cs)])"

definition atWordBoundary :: "position \<Rightarrow> bool" where
  "atWordBoundary pos =
     ((case fst pos of None \<Rightarrow> False | Some p \<Rightarrow> isWordChar p) \<noteq>
      (case snd pos of [] \<Rightarrow> False | c # cs \<Rightarrow> isWordChar c))"

fun rmatch :: "bool \<Rightarrow> regex \<Rightarrow> position \<Rightarrow> position list" where
  "rmatch ic (Lit l) pos = litMatch ic l pos"
| "rmatch ic (One k) pos =
     (case snd pos of [] \<Rightarrow> [] | c # cs \<Rightarrow> if inClass k c then [(Some c, cs)] else [])"
| "rmatch ic (Star k) pos = starMatch k pos"
| "rmatch ic (Plus k) pos =
     (case snd pos of [] \<Rightarrow> [] | c # cs \<Rightarrow> if inClass k c then starMatch k (Some c, cs) else [])"
| "rmatch ic WordBoundary pos = (if atWordBoundary pos then [pos] else [])"
| "rmatch ic EndOfInput pos = (if snd pos = [] then [pos] else [])"
| "rmatch ic (Seq r1 r2) pos = concat (map (rmatch ic r2) (rmatch ic r1 pos))"
| "rmatch ic (Alt r1 r2) pos = rmatch ic r1 pos @ rmatch ic r2 pos"

text \<open>
  \<open>matchLength\<close> is the number of characters the reported match takes at a position,
  if there is a match there.
\<close>

definition matchLength :: "bool \<Rightarrow> regex \<Rightarrow> position \<Rightarrow> nat option" where
  "matchLength ic r pos =
     (case rmatch ic r pos of [] \<Rightarrow> None | (p, rest) # ms \<Rightarrow> Some (length (snd pos) - length rest))"

text \<open>\<open>regex.test(s)\<close> without the \<open>g\<close> flag: a match at some position of \<open>s\<close>.\<close>

fun testFrom :: "bool \<Rightarrow> regex \<Rightarrow> char option \<Rightarrow> string \<Rightarrow> bool" where
  "testFrom ic r prev [] = (rmatch ic r (prev, []) \<noteq> [])"
| "testFrom ic r prev (c # cs) = (rmatch ic r (prev, c # cs) \<noteq> [] \<or> testFrom ic r (Some c) cs)"

definition regexTest :: "bool \<Rightarrow> regex \<Rightarrow> string \<Rightarrow> bool" where
  "regexTest ic r s = testFrom ic r None s"

text \<open>
  \<open>s.replace(regex, rep)\<close> with the \<open>g\<close> flag: the matches are found from left to right
  and do not overlap. The counter is the number of characters of the current match that
  are still to be passed over. After an empty match the next character is copied.
\<close>

fun replaceFrom :: "bool \<Rightarrow> regex \<Rightarrow> string \<Rightarrow> nat \<Rightarrow> char option \<Rightarrow> string \<Rightarrow> string" where
  "replaceFrom ic r rep skip prev [] =
     (if skip = 0 \<and> rmatch ic r (prev, []) \<noteq> [] then rep else [])"
| "replaceFrom ic r rep (Suc k) prev (c # cs) = replaceFrom ic r rep k (Some c) cs"
| "replaceFrom ic r rep 0 prev (c # cs) =
     (case matchLength ic r (prev, c # cs) of
        None \<Rightarrow> c # replaceFrom ic r rep 0 (Some c) cs
      | Some 0 \<Rightarrow> rep @ c # replaceFrom ic r rep 0 (Some c) cs
      | Some (Suc n) \<Rightarrow> rep @ replaceFrom ic r rep n (Some c) cs)"

definition replaceAll :: "bool \<Rightarrow> regex \<Rightarrow> string \<Rightarrow> string \<Rightarrow> string" where
  "replaceAll ic r rep s = replaceFrom ic r rep 0 None s"

text \<open>\<open>s.replace(regex, rep)\<close> without the \<open>g\<close> flag: only the first match.\<close>

fun replaceFirstFrom :: "bool \<Rightarrow> regex \<Rightarrow> string \<Rightarrow> char option \<Rightarrow> string \<Rightarrow> string" where
  "replaceFirstFrom ic r rep prev [] = (if rmatch ic r (prev, []) \<noteq> [] then rep else [])"
| "replaceFirstFrom ic r rep prev (c # cs) =
     (case matchLength ic r (prev, c # cs) of
        None \<Rightarrow> c # replaceFirstFrom ic r rep (Some c) cs
      | Some n \<Rightarrow> rep @ drop n (c # cs))"

definition replaceFirst :: "bool \<Rightarrow> regex \<Rightarrow> string \<Rightarrow> string \<Rightarrow> string" where
  "replaceFirst ic r rep s = replaceFirstFrom ic r rep None s"

text \<open>
  \<open>s.split(regex)\<close>: \<open>cur\<close> is the piece being read. An empty match at the start of a
  piece is passed over; any other match closes the piece; the last piece is always
  pushed. The empty string splits into one empty piece unless the expression matches it.
\<close>

fun splitFrom :: "bool \<Rightarrow> regex \<Rightarrow> nat \<Rightarrow> string \<Rightarrow> char option \<Rightarrow> string \<Rightarrow> string list" where
  "splitFrom ic r skip cur prev [] = [cur]"
| "splitFrom ic r (Suc k) cur prev (c # cs) = splitFrom ic r k cur (Some c) cs"
| "splitFrom ic r 0 cur prev (c # cs) =
     (case matchLength ic r (prev, c # cs) of
        None \<Rightarrow> splitFrom ic r 0 (cur @ [c]) (Some c) cs
      | Some 0 \<Rightarrow>
          if cur = [] then splitFrom ic r 0 [c] (Some c) cs
          else cur # splitFrom ic r 0 [c] (Some c) cs
      | Some (Suc n) \<Rightarrow> cur # splitFrom ic r n [] (Some c) cs)"

definition split :: "bool \<Rightarrow> regex \<Rightarrow> string \<Rightarrow> string list" where
  "split ic r s =
     (if s = [] then (if rmatch ic r (None, []) \<noteq> [] then [] else [[]])
      else splitFrom ic r 0 [] None s)"

section \<open>The canned templates (lib/planner.ts)\<close>

definition support_triage :: AgentPlan where
  "support_triage =
    \<lparr>version = ''0.1'',
     title = ''Support Ticket Triage'',
     description = ''Ingest support emails, extract details, classify severity, require human approval for critical, create a Jira ticket, notify Slack.'',
     agents = [
       \<lparr>agent_id = ''email-ingester'',
        agent_name = ''Email Ingester'',
        agent_type = Retriever,
        summary = ''Fetches incoming support emails from the inbox'',
        inputs = [\<lparr>input_from = None, input_name = ''email_inbox''\<rparr>],
        outputs = [\<lparr>output_name = ''raw_email''\<rparr>],
        suggestedTools = [''IMAP Client'', ''Gmail API''],
        agent_notes = []\<rparr>,
       \<lparr>agent_id = ''detail-extractor'',
        agent_name = ''Detail Extractor'',
        agent_type = Extractor,
        summary = ''Parses email to extract sender, subject, body, and metadata'',
        inputs = [\<lparr>input_from = Some ''email-ingester'', input_name = ''raw_email''\<rparr>],
        outputs = [\<lparr>output_name = ''ticket_details''\<rparr>],
        suggestedTools = [''NLP Parser'', ''Regex''],
        agent_notes = []\<rparr>,
       \<lparr>agent_id = ''severity-classifier'',
        agent_name = ''Severity Classifier'',
        agent_type = Classifier,
        summary = ''Classifies ticket severity as low, medium, high, or critical'',
        inputs = [\<lparr>input_from = Some ''detail-extractor'', input_name = ''ticket_details''\<rparr>],
        outputs = [\<lparr>output_name = ''severity''\<rparr>, \<lparr>output_name = ''classified_ticket''\<rparr>],
        suggestedTools = [''ML Classifier'', ''Rule Engine''],
        agent_notes = []\<rparr>,
       \<lparr>agent_id = ''human-approval'',
        agent_name = ''Human Approval Gate'',
        agent_type = HumanGate,
        summary = ''Routes critical tickets for human approval before action'',
        inputs = [\<lparr>input_from = Some ''severity-classifier'', input_name = ''classified_ticket''\<rparr>],
        outputs = [\<lparr>output_name = ''approved_ticket''\<rparr>],
        suggestedTools = [''Slack Bot'', ''Email Notifier''],
        agent_notes = [''Only triggered for critical severity'']\<rparr>,
       \<lparr>agent_id = ''jira-creator'',
        agent_name = ''Jira Ticket Creator'',
        agent_type = ToolExecutor,
        summary = ''Creates a Jira ticket with extracted details and severity'',
        inputs = [\<lparr>input_from = Some ''human-approval'', input_name = ''approved_ticket''\<rparr>],
        outputs = [\<lparr>output_name = ''jira_issue''\<rparr>],
        suggestedTools = [''Jira REST API''],
        agent_notes = []\<rparr>,
       \<lparr>agent_id = ''slack-notifier'',
        agent_name = ''Slack Notifier'',
        agent_type = Notifier,
        summary = ''Posts notification to the support channel with ticket link'',
        inputs = [\<lparr>input_from = Some ''jira-creator'', input_name = ''jira_issue''\<rparr>],
        outputs = [\<lparr>output_name = ''notification_sent''\<rparr>],
        suggestedTools = [''Slack Webhook'', ''Slack Bot''],
        agent_notes = []\<rparr>],
     edges = [
       \<lparr>edge_from = ''email-ingester'', edge_to = ''detail-extractor'', edge_data = ''raw_email''\<rparr>,
       \<lparr>edge_from = ''detail-extractor'', edge_to = ''severity-classifier'', edge_data = ''ticket_details''\<rparr>,
       \<lparr>edge_from = ''severity-classifier'', edge_to = ''human-approval'', edge_data = ''classified_ticket''\<rparr>,
       \<lparr>edge_from = ''human-approval'', edge_to = ''jira-creator'', edge_data = ''approved_ticket''\<rparr>,
       \<lparr>edge_from = ''jira-creator'', edge_to = ''slack-notifier'', edge_data = ''jira_issue''\<rparr>],
     dataSchemas = [
       (''raw_email'', [''from'', ''to'', ''subject'', ''body'', ''timestamp'']),
       (''ticket_details'', [''sender'', ''subject'', ''description'', ''urgency_keywords'']),
       (''severity'', [''level'', ''confidence'']),
       (''jira_issue'', [''key'', ''url'', ''summary'', ''priority''])]\<rparr>"

definition lead_qualification :: AgentPlan where
  "lead_qualification =
    \<lparr>version = ''0.1'',
     title = ''Lead Qualification Pipeline'',
     description = ''Collect inbound form submissions, enrich with Clearbit, score the lead, route to AE if score > 80, create a CRM record, and email a personalized intro.'',
     agents = [
       \<lparr>agent_id = ''form-collector'',
        agent_name = ''Form Submission Collector'',
        agent_type = Retriever,
        summary = ''Collects inbound lead form submissions from the website'',
        inputs = [\<lparr>input_from = None, input_name = ''form_webhook''\<rparr>],
        outputs = [\<lparr>output_name = ''lead_submission''\<rparr>],
        suggestedTools = [''Webhook Handler'', ''Form Parser''],
        agent_notes = []\<rparr>,
       \<lparr>agent_id = ''clearbit-enricher'',
        agent_name = ''Clearbit Enricher'',
        agent_type = Retriever,
        summary = ''Enriches lead data with company and person info from Clearbit'',
        inputs = [\<lparr>input_from = Some ''form-collector'', input_name = ''lead_submission''\<rparr>],
        outputs = [\<lparr>output_name = ''enriched_lead''\<rparr>],
        suggestedTools = [''Clearbit API'', ''Company Database''],
        agent_notes = []\<rparr>,
       \<lparr>agent_id = ''lead-scorer'',
        agent_name = ''Lead Scorer'',
        agent_type = Classifier,
        summary = ''Scores the lead based on company size, role, and engagement signals'',
        inputs = [\<lparr>input_from = Some ''clearbit-enricher'', input_name = ''enriched_lead''\<rparr>],
        outputs = [\<lparr>output_name = ''scored_lead''\<rparr>],
        suggestedTools = [''Scoring Model'', ''Rule Engine''],
        agent_notes = []\<rparr>,
       \<lparr>agent_id = ''ae-router'',
        agent_name = ''AE Router'',
        agent_type = Classifier,
        summary = ''Routes high-scoring leads (>80) to an Account Executive'',
        inputs = [\<lparr>input_from = Some ''lead-scorer'', input_name = ''scored_lead''\<rparr>],
        outputs = [\<lparr>output_name = ''routed_lead''\<rparr>],
        suggestedTools = [''Assignment Rules'', ''Round Robin''],
        agent_notes = [''Leads with score <= 80 go to nurture sequence'']\<rparr>,
       \<lparr>agent_id = ''crm-creator'',
        agent_name = ''CRM Record Creator'',
        agent_type = ToolExecutor,
        summary = ''Creates or updates a lead record in the CRM'',
        inputs = [\<lparr>input_from = Some ''ae-router'', input_name = ''routed_lead''\<rparr>],
        outputs = [\<lparr>output_name = ''crm_record''\<rparr>],
        suggestedTools = [''Salesforce API'', ''HubSpot API''],
        agent_notes = []\<rparr>,
       \<lparr>agent_id = ''intro-emailer'',
        agent_name = ''Personalized Intro Emailer'',
        agent_type = Generator,
        summary = ''Generates and sends a personalized intro email to the lead'',
        inputs = [\<lparr>input_from = Some ''crm-creator'', input_name = ''crm_record''\<rparr>],
        outputs = [\<lparr>output_name = ''email_sent''\<rparr>],
        suggestedTools = [''Email Template Engine'', ''SendGrid''],
        agent_notes = []\<rparr>],
     edges = [
       \<lparr>edge_from = ''form-collector'', edge_to = ''clearbit-enricher'', edge_data = ''lead_submission''\<rparr>,
       \<lparr>edge_from = ''clearbit-enricher'', edge_to = ''lead-scorer'', edge_data = ''enriched_lead''\<rparr>,
       \<lparr>edge_from = ''lead-scorer'', edge_to = ''ae-router'', edge_data = ''scored_lead''\<rparr>,
       \<lparr>edge_from = ''ae-router'', edge_to = ''crm-creator'', edge_data = ''routed_lead''\<rparr>,
       \<lparr>edge_from = ''crm-creator'', edge_to = ''intro-emailer'', edge_data = ''crm_record''\<rparr>],
     dataSchemas = [
       (''lead_submission'', [''email'', ''name'', ''company'', ''message'']),
       (''enriched_lead'', [''email'', ''name'', ''company'', ''title'', ''employees'', ''industry'']),
       (''scored_lead'', [''lead'', ''score'', ''score_breakdown'']),
       (''crm_record'', [''id'', ''url'', ''owner''])]\<rparr>"

definition weekly_report :: AgentPlan where
  "weekly_report =
    \<lparr>version = ''0.1'',
     title = ''Weekly Report Generator'',
     description = ''Fetch metrics from analytics and billing, summarize key changes, generate a short natural-language report, and email it to the team.'',
     agents = [
       \<lparr>agent_id = ''analytics-fetcher'',
        agent_name = ''Analytics Metrics Fetcher'',
        agent_type = Retriever,
        summary = ''Fetches weekly metrics from the analytics platform'',
        inputs = [\<lparr>input_from = None, input_name = ''analytics_api''\<rparr>],
        outputs = [\<lparr>output_name = ''analytics_data''\<rparr>],
        suggestedTools = [''Google Analytics API'', ''Mixpanel API''],
        agent_notes = []\<rparr>,
       \<lparr>agent_id = ''billing-fetcher'',
        agent_name = ''Billing Metrics Fetcher'',
        agent_type = Retriever,
        summary = ''Fetches revenue and billing data from the billing system'',
        inputs = [\<lparr>input_from = None, input_name = ''billing_api''\<rparr>],
        outputs = [\<lparr>output_name = ''billing_data''\<rparr>],
        suggestedTools = [''Stripe API'', ''Chargebee API''],
        agent_notes = []\<rparr>,
       \<lparr>agent_id = ''change-summarizer'',
        agent_name = ''Change Summarizer'',
        agent_type = Extractor,
        summary = ''Identifies and summarizes key changes week-over-week'',
        inputs = [\<lparr>input_from = Some ''analytics-fetcher'', input_name = ''analytics_data''\<rparr>, \<lparr>input_from = Some ''billing-fetcher'', input_name = ''billing_data''\<rparr>],
        outputs = [\<lparr>output_name = ''change_summary''\<rparr>],
        suggestedTools = [''Data Diff Tool'', ''Statistical Analyzer''],
        agent_notes = []\<rparr>,
       \<lparr>agent_id = ''report-generator'',
        agent_name = ''Report Generator'',
        agent_type = Generator,
        summary = ''Generates a natural-language weekly report with key highlights'',
        inputs = [\<lparr>input_from = Some ''change-summarizer'', input_name = ''change_summary''\<rparr>],
        outputs = [\<lparr>output_name = ''report_draft''\<rparr>],
        suggestedTools = [''LLM'', ''Template Engine''],
        agent_notes = []\<rparr>,
       \<lparr>agent_id = ''team-emailer'',
        agent_name = ''Team Emailer'',
        agent_type = Notifier,
        summary = ''Sends the generated report to the team via email'',
        inputs = [\<lparr>input_from = Some ''report-generator'', input_name = ''report_draft''\<rparr>],
        outputs = [\<lparr>output_name = ''email_sent''\<rparr>],
        suggestedTools = [''SendGrid'', ''SES''],
        agent_notes = []\<rparr>],
     edges = [
       \<lparr>edge_from = ''analytics-fetcher'', edge_to = ''change-summarizer'', edge_data = ''analytics_data''\<rparr>,
       \<lparr>edge_from = ''billing-fetcher'', edge_to = ''change-summarizer'', edge_data = ''billing_data''\<rparr>,
       \<lparr>edge_from = ''change-summarizer'', edge_to = ''report-generator'', edge_data = ''change_summary''\<rparr>,
       \<lparr>edge_from = ''report-generator'', edge_to = ''team-emailer'', edge_data = ''report_draft''\<rparr>],
     dataSchemas = [
       (''analytics_data'', [''pageviews'', ''sessions'', ''users'', ''conversion_rate'']),
       (''billing_data'', [''mrr'', ''churn'', ''new_revenue'', ''renewals'']),
       (''change_summary'', [''highlights'', ''concerns'', ''trends'']),
       (''report_draft'', [''title'', ''body'', ''bullet_points''])]\<rparr>"

section \<open>The planner (lib/planner.ts)\<close>

text \<open>\<open>VERB_TO_AGENT_TYPE\<close>: every expression is \<open>\b(...)\b\<close> with the \<open>i\<close> flag.\<close>

definition wordRule :: "regex \<Rightarrow> regex list \<Rightarrow> regex" where
  "wordRule r rs = Seq WordBoundary (Seq (alts r rs) WordBoundary)"

definition VERB_TO_AGENT_TYPE :: "(regex \<times> AgentType \<times> string list) list" where
  "VERB_TO_AGENT_TYPE =
    [(wordRule (Lit ''ingest'') [Lit ''fetch'', Lit ''collect'', Lit ''retrieve'', Lit ''get'',
        Lit ''load'', Lit ''pull''],
      Retriever, [''API Client'', ''File Reader'', ''Database Connector'']),
     (wordRule (Lit ''parse'') [Lit ''extract'', Lit ''scrape'', Lit ''read''],
      Extractor, [''Text Parser'', ''JSON Extractor'', ''Regex Matcher'']),
     (wordRule (Lit ''decide'') [Lit ''route'', Lit ''classify'', Lit ''categorize'', Lit ''score'',
        Lit ''rank'', Lit ''filter''],
      Classifier, [''Rule Engine'', ''ML Classifier'', ''Scoring Model'']),
     (wordRule (Lit ''create'') [Lit ''update'', Lit ''write'', Lit ''insert'', Lit ''post'',
        Lit ''put'', Lit ''delete'', Lit ''call''],
      ToolExecutor, [''REST Client'', ''Database Writer'', ''Webhook Caller'']),
     (wordRule (Lit ''summarize'') [Lit ''draft'', Lit ''write'', Lit ''generate'', Lit ''compose'',
        Seq (Lit ''create'') (Seq (Star AnyChar) (Lit ''report''))],
      Generator, [''LLM'', ''Template Engine'', ''Report Builder'']),
     (wordRule (Lit ''approv'') [Lit ''review'', Lit ''confirm'', Lit ''human'', Lit ''manual'',
        Lit ''escalate''],
      HumanGate, [''Approval Queue'', ''Email Notification'', ''Slack Bot'']),
     (wordRule (Lit ''notify'') [Lit ''alert'', Lit ''email'', Lit ''slack'', Lit ''send'',
        Lit ''message''],
      Notifier, [''Email Service'', ''Slack API'', ''SMS Gateway'', ''Webhook'']),
     (wordRule (Lit ''enrich'') [Lit ''augment'', Lit ''lookup'', Lit ''clearbit'', Lit ''external''],
      Retriever, [''Clearbit API'', ''LinkedIn API'', ''Company Database''])]"

text \<open>
  \<open>parseSteps\<close>: five replacements that turn the delimiters into \<open>", "\<close>, a split at
  \<open>/,\s*/\<close>, a filter on the trimmed length, and the removal of a final period.
\<close>

definition commaAndThen :: regex where
  "commaAndThen = seqs (Lit '','') [Star WhiteSpace, Lit ''and'', Plus WhiteSpace, Lit ''then'', Star WhiteSpace]"

definition andThen :: regex where
  "andThen = seqs (Plus WhiteSpace) [Lit ''and'', Plus WhiteSpace, Lit ''then'', Plus WhiteSpace]"

definition thenWord :: regex where
  "thenWord = seqs (Plus WhiteSpace) [Lit ''then'', Plus WhiteSpace]"

definition sentenceBreak :: regex where
  "sentenceBreak = Seq (Lit ''.'') (Plus WhiteSpace)"

definition commaAnd :: regex where
  "commaAnd = seqs (Lit '','') [Star WhiteSpace, Lit ''and'', Plus WhiteSpace]"

definition commaSep :: regex where
  "commaSep = Seq (Lit '','') (Star WhiteSpace)"

definition finalPeriod :: regex where
  "finalPeriod = Seq (Lit ''.'') EndOfInput"

definition normalizeDelimiters :: "string \<Rightarrow> string" where
  "normalizeDelimiters d =
     replaceAll True commaAnd '', ''
       (replaceAll False sentenceBreak '', ''
         (replaceAll True thenWord '', ''
           (replaceAll True andThen '', ''
             (replaceAll True commaAndThen '', '' d))))"

definition parseSteps :: "string \<Rightarrow> string list" where
  "parseSteps d =
     map (\<lambda>p. replaceFirst False finalPeriod [] (trim p))
       (filter (\<lambda>s. length (trim s) > 3) (split False commaSep (normalizeDelimiters d)))"

fun inferFrom :: "(regex \<times> AgentType \<times> string list) list \<Rightarrow> string \<Rightarrow> AgentType \<times> string list" where
  "inferFrom [] step = (Generator, [''LLM'', ''Custom Logic''])"
| "inferFrom ((r, agentType, tools) # rules) step =
     (if regexTest True r step then (agentType, tools) else inferFrom rules step)"

definition inferAgentType :: "string \<Rightarrow> AgentType \<times> string list" where
  "inferAgentType step = inferFrom VERB_TO_AGENT_TYPE step"

fun typeName :: "AgentType \<Rightarrow> string" where
  "typeName Orchestrator = ''Orchestrator''"
| "typeName Retriever = ''Retriever''"
| "typeName Extractor = ''Extractor''"
| "typeName Classifier = ''Classifier''"
| "typeName Generator = ''Generator''"
| "typeName ToolExecutor = ''ToolExecutor''"
| "typeName HumanGate = ''HumanGate''"
| "typeName Notifier = ''Notifier''"

text \<open>
  \<open>words[0] || ""\<close> and \<open>words.slice(1, 3).join(" ") || "Data"\<close>: a missing first word
  and the empty string are both falsy.
\<close>

definition firstWord :: "string list \<Rightarrow> string \<Rightarrow> string" where
  "firstWord ws dflt = (case ws of [] \<Rightarrow> dflt | w # rest \<Rightarrow> if w = [] then dflt else w)"

definition generateAgentName :: "string \<Rightarrow> AgentType \<Rightarrow> string" where
  "generateAgentName step ty =
     (let ws = split False (Plus WhiteSpace) step;
          verb = firstWord ws [];
          obj = (let j = join '' '' (take 2 (drop 1 ws)) in if j = [] then ''Data'' else j)
      in take 30 (capitalize verb @ '' '' @ capitalize obj @ '' '' @ typeName ty))"

definition nouns :: "string list" where
  "nouns = [''email'', ''data'', ''ticket'', ''lead'', ''report'', ''record'', ''message'',
            ''result'', ''response'', ''notification'']"

definition verbToOutput :: "(string \<times> string) list" where
  "verbToOutput =
     [(''ingest'', ''raw_data''), (''fetch'', ''fetched_data''), (''collect'', ''collected_data''),
      (''extract'', ''extracted_info''), (''parse'', ''parsed_data''),
      (''classify'', ''classification''), (''route'', ''routed_data''), (''score'', ''scored_data''),
      (''create'', ''created_record''), (''update'', ''updated_record''),
      (''generate'', ''generated_content''), (''summarize'', ''summary''),
      (''notify'', ''notification''), (''email'', ''email_sent''), (''approve'', ''approved_data'')]"

text \<open>
  \<open>generateOutputName\<close>. The table is a plain object of the source; the names it inherits
  from \<open>Object.prototype\<close> are not modelled.
\<close>

definition generateOutputName :: "string \<Rightarrow> nat \<Rightarrow> string" where
  "generateOutputName step index =
     (let ws = split False (Plus WhiteSpace) (toLowerCase step) in
      case find (\<lambda>noun. list_ex (\<lambda>w. str_includes w noun) ws) nouns of
        Some noun \<Rightarrow> noun @ ''_output''
      | None \<Rightarrow>
          (case map_of verbToOutput (firstWord ws ''process'') of
             Some out \<Rightarrow> if out = [] then ''step_'' @ string_of_nat (index + 1) @ ''_output'' else out
           | None \<Rightarrow> ''step_'' @ string_of_nat (index + 1) @ ''_output''))"

fun generateFields :: "string \<Rightarrow> AgentType \<Rightarrow> string list" where
  "generateFields step Orchestrator = [''status'', ''timestamp'', ''metadata'']"
| "generateFields step Retriever = [''raw_content'', ''source'', ''timestamp'']"
| "generateFields step Extractor = [''extracted_fields'', ''confidence'', ''raw_text'']"
| "generateFields step Classifier = [''category'', ''score'', ''confidence'']"
| "generateFields step Generator = [''generated_text'', ''model_used'', ''tokens'']"
| "generateFields step ToolExecutor = [''result'', ''status_code'', ''api_response'']"
| "generateFields step HumanGate = [''decision'', ''approver'', ''comments'']"
| "generateFields step Notifier = [''sent_at'', ''recipient'', ''channel'']"

definition generateTitle :: "string \<Rightarrow> string" where
  "generateTitle d =
     take 50 (capitalize (join '' '' (take 5 (split False (Plus WhiteSpace) d)))) @ '' Workflow''"

text \<open>The minimal plan returned when no step is found.\<close>

definition minimalPlan :: "string \<Rightarrow> AgentPlan" where
  "minimalPlan d =
     \<lparr>version = ''0.1'',
      title = ''Custom Workflow'',
      description = d,
      agents =
        [\<lparr>agent_id = ''orchestrator'',
          agent_name = ''Workflow Orchestrator'',
          agent_type = Orchestrator,
          summary = ''Coordinates the workflow execution'',
          inputs = [\<lparr>input_from = None, input_name = ''input_data''\<rparr>],
          outputs = [\<lparr>output_name = ''output_data''\<rparr>],
          suggestedTools = [''Workflow Engine''],
          agent_notes = []\<rparr>],
      edges = [],
      dataSchemas = []\<rparr>"

text \<open>
  One turn of the loop \<open>for (let i = 0; i < steps.length; i++)\<close>, on the three
  accumulators \<open>agents\<close>, \<open>edges\<close> and \<open>dataSchemas\<close>. \<open>steps[i - 1] ? ... : "data"\<close>
  tests the previous step for the empty string.
\<close>

definition agentIdOf :: "nat \<Rightarrow> string" where
  "agentIdOf n = ''agent-'' @ string_of_nat n"

definition prevOutputName :: "string list \<Rightarrow> nat \<Rightarrow> string" where
  "prevOutputName steps i =
     (if steps ! (i - 1) \<noteq> [] then generateOutputName (steps ! (i - 1)) (i - 1) else ''data'')"

definition stepAgent :: "string list \<Rightarrow> nat \<Rightarrow> AgentNode" where
  "stepAgent steps i =
     (let step = steps ! i;
          (ty, tools) = inferAgentType step
      in \<lparr>agent_id = agentIdOf (i + 1),
          agent_name = generateAgentName step ty,
          agent_type = ty,
          summary = capitalize (trim step),
          inputs = (if i > 0
                    then [\<lparr>input_from = Some (agentIdOf i), input_name = prevOutputName steps i\<rparr>]
                    else [\<lparr>input_from = None, input_name = ''input_data''\<rparr>]),
          outputs = [\<lparr>output_name = generateOutputName step i\<rparr>],
          suggestedTools = tools,
          agent_notes = []\<rparr>)"

definition stepEdges :: "string list \<Rightarrow> nat \<Rightarrow> EdgeSpec list" where
  "stepEdges steps i =
     (if i > 0
      then [\<lparr>edge_from = agentIdOf i, edge_to = agentIdOf (i + 1),
             edge_data = generateOutputName (steps ! (i - 1)) (i - 1)\<rparr>]
      else [])"

definition planStep ::
  "string list \<Rightarrow> nat \<Rightarrow> AgentNode list \<times> EdgeSpec list \<times> (string \<times> string list) list \<Rightarrow>
   AgentNode list \<times> EdgeSpec list \<times> (string \<times> string list) list" where
  "planStep steps i acc =
     (case acc of (ags, es, schemas) \<Rightarrow>
        (ags @ [stepAgent steps i],
         es @ stepEdges steps i,
         AList.update (generateOutputName (steps ! i) i)
           (generateFields (steps ! i) (fst (inferAgentType (steps ! i)))) schemas))"

definition planFromSteps :: "string \<Rightarrow> string list \<Rightarrow> AgentPlan" where
  "planFromSteps d steps =
     (case fold (planStep steps) [0..<length steps] ([], [], []) of (ags, es, schemas) \<Rightarrow>
        \<lparr>version = ''0.1'', title = generateTitle d, description = d, agents = ags, edges = es,
         dataSchemas = schemas\<rparr>)"

definition planFromDescription :: "string \<Rightarrow> AgentPlan" where
  "planFromDescription d =
     (let lowerDesc = toLowerCase d in
      if str_includes lowerDesc ''support'' \<and> str_includes lowerDesc ''triage'' then support_triage
      else if str_includes lowerDesc ''lead'' \<and> str_includes lowerDesc ''qualif'' then lead_qualification
      else if str_includes lowerDesc ''weekly'' \<and> str_includes lowerDesc ''report'' then weekly_report
      else
        (let steps = parseSteps d in
         if steps = [] then minimalPlan d else planFromSteps d steps))"

section \<open>The layout engine (lib/layout.ts)\<close>

text \<open>
  Coordinates are JavaScript numbers; every value the layout computes is an integer
  (\<open>totalHeight\<close> is even), so they are modelled as \<open>int\<close>. The maps \<open>adjacency\<close>,
  \<open>inDegree\<close>, \<open>levels\<close> and \<open>levelGroups\<close> are association lists in insertion order.
\<close>

definition NODE_WIDTH :: int where "NODE_WIDTH = 280"
definition NODE_HEIGHT :: int where "NODE_HEIGHT = 100"
definition HORIZONTAL_GAP :: int where "HORIZONTAL_GAP = 100"
definition VERTICAL_GAP :: int where "VERTICAL_GAP = 40"

fun AGENT_TYPE_COLORS :: "AgentType \<Rightarrow> string" where
  "AGENT_TYPE_COLORS Orchestrator = ''#805AD5''"
| "AGENT_TYPE_COLORS Retriever = ''#3182CE''"
| "AGENT_TYPE_COLORS Extractor = ''#38A169''"
| "AGENT_TYPE_COLORS Classifier = ''#DD6B20''"
| "AGENT_TYPE_COLORS Generator = ''#D53F8C''"
| "AGENT_TYPE_COLORS ToolExecutor = ''#319795''"
| "AGENT_TYPE_COLORS HumanGate = ''#E53E3E''"
| "AGENT_TYPE_COLORS Notifier = ''#718096''"

record FlowNode =
  node_id :: string
  position_x :: int
  position_y :: int
  node_data :: AgentNode
  node_color :: string

record FlowEdge =
  flow_edge_id :: string
  source :: string
  target :: string
  label :: string

record LayoutResult =
  layout_nodes :: "FlowNode list"
  layout_edges :: "FlowEdge list"

text \<open>\<open>map.get(k) || 0\<close>.\<close>

definition getOr0 :: "(string \<times> int) list \<Rightarrow> string \<Rightarrow> int" where
  "getOr0 m k = (case map_of m k of None \<Rightarrow> 0 | Some v \<Rightarrow> v)"

definition initAdjacency :: "AgentNode list \<Rightarrow> (string \<times> string list) list" where
  "initAdjacency ags = fold (\<lambda>agent adj. AList.update (agent_id agent) [] adj) ags []"

definition initInDegree :: "AgentNode list \<Rightarrow> (string \<times> int) list" where
  "initInDegree ags = fold (\<lambda>agent deg. AList.update (agent_id agent) 0 deg) ags []"

definition countEdge :: "EdgeSpec \<Rightarrow> (string \<times> int) list \<Rightarrow> (string \<times> int) list" where
  "countEdge edge deg = AList.update (edge_to edge) (getOr0 deg (edge_to edge) + 1) deg"

definition layoutAdjacency :: "AgentPlan \<Rightarrow> (string \<times> string list) list" where
  "layoutAdjacency plan = fold addEdge (edges plan) (initAdjacency (agents plan))"

definition layoutInDegree :: "AgentPlan \<Rightarrow> (string \<times> int) list" where
  "layoutInDegree plan = fold countEdge (edges plan) (initInDegree (agents plan))"

text \<open>The state of the topological sort: the queue, \<open>inDegree\<close> and \<open>levels\<close>.\<close>

type_synonym sort_state = "string list \<times> (string \<times> int) list \<times> (string \<times> int) list"

definition addRoot :: "(string \<times> int) list \<Rightarrow> AgentNode \<Rightarrow> string list \<times> (string \<times> int) list \<Rightarrow> string list \<times> (string \<times> int) list" where
  "addRoot deg agent ql =
     (if getOr0 deg (agent_id agent) = 0
      then (fst ql @ [agent_id agent], AList.update (agent_id agent) 0 (snd ql))
      else ql)"

definition rootState :: "AgentPlan \<Rightarrow> sort_state" where
  "rootState plan =
     (case fold (addRoot (layoutInDegree plan)) (agents plan) ([], []) of
        (queue, levels) \<Rightarrow> (queue, layoutInDegree plan, levels))"

text \<open>The body of the loop over the neighbours of the node taken from the queue.\<close>

definition visitNeighbor :: "int \<Rightarrow> string \<Rightarrow> sort_state \<Rightarrow> sort_state" where
  "visitNeighbor currentLevel neighbor s =
     (case s of (queue, deg, levels) \<Rightarrow>
        (let newDegree = getOr0 deg neighbor - 1;
             deg' = AList.update neighbor newDegree deg;
             existingLevel = getOr0 levels neighbor;
             levels' = AList.update neighbor (max existingLevel (currentLevel + 1)) levels
         in (if newDegree = 0 then queue @ [neighbor] else queue, deg', levels')))"

definition positiveDegrees :: "(string \<times> int) list \<Rightarrow> string set" where
  "positiveDegrees deg = {k. \<exists>v. map_of deg k = Some v \<and> 0 < v}"

definition sortMeasure :: "sort_state \<Rightarrow> nat" where
  "sortMeasure s = (case s of (queue, deg, levels) \<Rightarrow> length queue + 2 * card (positiveDegrees deg))"

text \<open>
  Visiting a neighbour never raises the measure: the queue grows by one only when an
  in-degree falls from 1 to 0.
\<close>

lemma finite_positiveDegrees: "finite (positiveDegrees d)"
proof -
  have "positiveDegrees d \<subseteq> fst ` set d"
    by (auto simp: positiveDegrees_def dest!: map_of_SomeD intro: rev_image_eqI)
  then show ?thesis
    by (rule finite_subset) simp
qed

lemma sortMeasure_visitNeighbor: "sortMeasure (visitNeighbor l n s) \<le> sortMeasure s"
proof -
  obtain q d lv where s: "s = (q, d, lv)"
    by (cases s)
  show ?thesis
  proof (cases "getOr0 d n - 1 = 0")
    case True
    then have one: "map_of d n = Some 1"
      by (auto simp: getOr0_def split: option.splits)
    have eq: "positiveDegrees (AList.update n 0 d) = positiveDegrees d - {n}"
      by (auto simp: positiveDegrees_def update_conv')
    have "n \<in> positiveDegrees d"
      using one by (simp add: positiveDegrees_def)
    then have "card (positiveDegrees d - {n}) < card (positiveDegrees d)"
      using finite_positiveDegrees by (intro card_Diff1_less) auto
    then show ?thesis
      using True eq by (simp add: s visitNeighbor_def sortMeasure_def Let_def)
  next
    case False
    have "positiveDegrees (AList.update n (getOr0 d n - 1) d) \<subseteq> positiveDegrees d"
      by (auto simp: positiveDegrees_def update_conv' getOr0_def split: if_splits option.splits)
    then have "card (positiveDegrees (AList.update n (getOr0 d n - 1) d)) \<le> card (positiveDegrees d)"
      using finite_positiveDegrees by (intro card_mono) auto
    then show ?thesis
      using False by (simp add: s visitNeighbor_def sortMeasure_def Let_def)
  qed
qed

lemma sortMeasure_fold: "sortMeasure (fold (visitNeighbor l) ns s) \<le> sortMeasure s"
proof (induction ns arbitrary: s)
  case Nil
  show ?case by simp
next
  case (Cons n ns)
  have "sortMeasure (fold (visitNeighbor l) ns (visitNeighbor l n s)) \<le> sortMeasure (visitNeighbor l n s)"
    by (rule Cons.IH)
  also have "\<dots> \<le> sortMeasure s"
    by (rule sortMeasure_visitNeighbor)
  finally show ?case by simp
qed

lemma sortMeasure_decreases:
  "sortMeasure (fold (visitNeighbor l) ns (queue, deg, levels)) < sortMeasure (current # queue, deg, levels)"
proof -
  have "sortMeasure (fold (visitNeighbor l) ns (queue, deg, levels)) \<le> sortMeasure (queue, deg, levels)"
    by (rule sortMeasure_fold)
  also have "\<dots> < sortMeasure (current # queue, deg, levels)"
    by (simp add: sortMeasure_def)
  finally show ?thesis .
qed

text \<open>
  \<open>while (queue.length > 0)\<close>. The loop ends on every input: a node enters the queue
  only when its in-degree falls from 1 to 0, which can happen once per node.
\<close>

function processQueue :: "(string \<times> string list) list \<Rightarrow> sort_state \<Rightarrow> sort_state" where
  "processQueue adj ([], deg, levels) = ([], deg, levels)"
| "processQueue adj (current # queue, deg, levels) =
     processQueue adj
       (fold (visitNeighbor (getOr0 levels current)) (neighbors adj current) (queue, deg, levels))"
  by pat_completeness auto
termination
  by (relation "measure (\<lambda>(adj, s). sortMeasure s)") (simp_all add: sortMeasure_decreases)

text \<open>
  The nodes the loop takes from the queue, in order. The source keeps no such list; it is
  defined beside the loop, by the same recursion, to state which nodes were ever enqueued
  (the loop runs until the queue is empty, so every enqueued node is taken from it).
\<close>

function dequeued :: "(string \<times> string list) list \<Rightarrow> sort_state \<Rightarrow> string list" where
  "dequeued adj ([], deg, levels) = []"
| "dequeued adj (current # queue, deg, levels) =
     current #
     dequeued adj
       (fold (visitNeighbor (getOr0 levels current)) (neighbors adj current) (queue, deg, levels))"
  by pat_completeness auto
termination
  by (relation "measure (\<lambda>(adj, s). sortMeasure s)") (simp_all add: sortMeasure_decreases)

definition enqueuedNodes :: "AgentPlan \<Rightarrow> string list" where
  "enqueuedNodes plan = dequeued (layoutAdjacency plan) (rootState plan)"

text \<open>The in-degrees left when the loop ends.\<close>

definition remainingInDegree :: "AgentPlan \<Rightarrow> (string \<times> int) list" where
  "remainingInDegree plan = fst (snd (processQueue (layoutAdjacency plan) (rootState plan)))"

text \<open>Every node in the queue has an in-degree that has reached 0.\<close>

definition queueReady :: "sort_state \<Rightarrow> bool" where
  "queueReady s = (\<forall>k \<in> set (fst s). getOr0 (fst (snd s)) k \<le> 0)"

definition computeLevels :: "AgentPlan \<Rightarrow> (string \<times> int) list" where
  "computeLevels plan = snd (snd (processQueue (layoutAdjacency plan) (rootState plan)))"

text \<open>Grouping by level: \<open>levels.get(agent.id) || 0\<close>.\<close>

definition addToGroup :: "(string \<times> int) list \<Rightarrow> AgentNode \<Rightarrow> (int \<times> AgentNode list) list \<Rightarrow> (int \<times> AgentNode list) list" where
  "addToGroup levels agent groups =
     (let level = getOr0 levels (agent_id agent) in
      case map_of groups level of
        None \<Rightarrow> groups @ [(level, [agent])]
      | Some ags \<Rightarrow> AList.update level (ags @ [agent]) groups)"

definition levelGroups :: "AgentPlan \<Rightarrow> (int \<times> AgentNode list) list" where
  "levelGroups plan = fold (addToGroup (computeLevels plan)) (agents plan) []"

definition mkNode :: "int \<Rightarrow> int \<Rightarrow> AgentNode \<Rightarrow> FlowNode" where
  "mkNode x y agent =
     \<lparr>node_id = agent_id agent, position_x = x, position_y = y, node_data = agent,
      node_color = AGENT_TYPE_COLORS (agent_type agent)\<rparr>"

definition groupNodes :: "int \<times> AgentNode list \<Rightarrow> FlowNode list" where
  "groupNodes g =
     (case g of (level, ags) \<Rightarrow>
        (let x = level * (NODE_WIDTH + HORIZONTAL_GAP);
             totalHeight = int (length ags) * NODE_HEIGHT + (int (length ags) - 1) * VERTICAL_GAP;
             startY = (- totalHeight) div 2
         in map (\<lambda>(index, agent). mkNode x (startY + int index * (NODE_HEIGHT + VERTICAL_GAP)) agent)
              (enumerate 0 ags)))"

definition mkFlowEdge :: "nat \<times> EdgeSpec \<Rightarrow> FlowEdge" where
  "mkFlowEdge ie =
     (case ie of (index, edge) \<Rightarrow>
        \<lparr>flow_edge_id = ''edge-'' @ string_of_nat index,
         source = edge_from edge,
         target = edge_to edge,
         label = replaceAll False (Lit ''_'') '' '' (edge_data edge)\<rparr>)"

definition planToReactFlow :: "AgentPlan \<Rightarrow> LayoutResult" where
  "planToReactFlow plan =
     \<lparr>layout_nodes = concat (map groupNodes (levelGroups plan)),
      layout_edges = map mkFlowEdge (enumerate 0 (edges plan))\<rparr>"

section \<open>The diagram exporter (lib/mermaid.ts)\<close>

definition sanitizeId :: "string \<Rightarrow> string" where
  "sanitizeId i = replaceAll False (One NonAlnum) ''_'' i"

definition truncate :: "string \<Rightarrow> nat \<Rightarrow> string" where
  "truncate str maxLength =
     (if length str \<le> maxLength then str else take (maxLength - 3) str @ ''...'')"

text \<open>
  The label of a node: the name, a backslash and the letter n, and the truncated
  summary. \<open>dq\<close> is the double quote, \<open>bs\<close> the backslash.
\<close>

abbreviation dq :: string where
  "dq \<equiv> [CHR 0x22]"

abbreviation bs :: string where
  "bs \<equiv> [CHR 0x5C]"

definition nodeLabel :: "AgentNode \<Rightarrow> string" where
  "nodeLabel agent = agent_name agent @ bs @ ''n'' @ truncate (summary agent) 40"

definition nodeLine :: "AgentNode \<Rightarrow> string" where
  "nodeLine agent = ''  '' @ sanitizeId (agent_id agent) @ ''['' @ dq @ nodeLabel agent @ dq @ '']''"

definition edgeLine :: "EdgeSpec \<Rightarrow> string" where
  "edgeLine edge =
     ''  '' @ sanitizeId (edge_from edge) @ '' -->|'' @
     replaceAll False (Lit ''_'') '' '' (edge_data edge) @ ''| '' @ sanitizeId (edge_to edge)"

definition styleLine :: "AgentNode \<Rightarrow> string" where
  "styleLine agent =
     ''  style '' @ sanitizeId (agent_id agent) @ '' fill:'' @ AGENT_TYPE_COLORS (agent_type agent) @
     '',color:#fff''"

definition mermaidLines :: "AgentPlan \<Rightarrow> string list" where
  "mermaidLines plan =
     [''flowchart LR'', [], ''  %% Nodes''] @ map nodeLine (agents plan) @
     [[], ''  %% Edges''] @ map edgeLine (edges plan) @
     [[], ''  %% Styling''] @ map styleLine (agents plan)"

definition planToMermaid :: "AgentPlan \<Rightarrow> string" where
  "planToMermaid plan = join [CHR 0x0A] (mermaidLines plan)"

section \<open>Example plans\<close>

text \<open>Three agents A, B and C, each with one input and one output, and a given list of edges.\<close>

definition abcAgent :: "string \<Rightarrow> string option \<Rightarrow> AgentNode" where
  "abcAgent i src =
     \<lparr>agent_id = i, agent_name = i, agent_type = Generator, summary = i,
      inputs = [\<lparr>input_from = src, input_name = ''in''\<rparr>],
      outputs = [\<lparr>output_name = ''out''\<rparr>], suggestedTools = [], agent_notes = []\<rparr>"

definition abcPlan :: "(string \<times> string) list \<Rightarrow> AgentPlan" where
  "abcPlan es =
     \<lparr>version = ''0.1'', title = ''t'', description = ''d'',
      agents = [abcAgent ''A'' None, abcAgent ''B'' (Some ''A''), abcAgent ''C'' (Some ''B'')],
      edges = map (\<lambda>(f, t). \<lparr>edge_from = f, edge_to = t, edge_data = ''out''\<rparr>) es,
      dataSchemas = []\<rparr>"

text \<open>
  An agent with no input, and two plans built from such agents: one whose agent ids and
  edge data contain colons, one whose agent name contains a double quote.
\<close>

definition bareAgent :: "string \<Rightarrow> string \<Rightarrow> string \<Rightarrow> string list \<Rightarrow> AgentNode" where
  "bareAgent i n s outs =
     \<lparr>agent_id = i, agent_name = n, agent_type = Generator, summary = s, inputs = [],
      outputs = map (\<lambda>out. \<lparr>output_name = out\<rparr>) outs, suggestedTools = [], agent_notes = []\<rparr>"

definition colonPlan :: AgentPlan where
  "colonPlan =
     \<lparr>version = ''0.1'', title = ''t'', description = ''d'',
      agents = [bareAgent ''a'' ''First'' ''s'' [], bareAgent ''a:b'' ''Second'' ''s'' [''c''],
                bareAgent ''z'' ''Last'' ''s'' []],
      edges = [\<lparr>edge_from = ''a'', edge_to = ''z'', edge_data = ''b:c''\<rparr>,
               \<lparr>edge_from = ''a:b'', edge_to = ''z'', edge_data = ''x''\<rparr>],
      dataSchemas = []\<rparr>"

definition quotePlan :: AgentPlan where
  "quotePlan =
     \<lparr>version = ''0.1'', title = ''t'', description = ''d'',
      agents = [bareAgent ''My/Agent'' (''a'' @ dq @ ''b'') ''s[x]'' []],
      edges = [], dataSchemas = []\<rparr>"

section \<open>Notions used in the proofs about step parsing\<close>

text \<open>
  The delimiters that \<open>parseSteps\<close> replaces and splits at are made of separator
  characters (white space, comma, period) and of the letters of "and" and "then", and each
  begins with a separator character. \<open>rchars\<close> bounds the characters a match can
  hold; \<open>separatorRegex\<close> is the shape of expression for which this is so. A run is
  solid when it holds no separator character and begins with a character that no
  delimiter can hold.
\<close>

definition sepChar :: "char \<Rightarrow> bool" where
  "sepChar c = (isSpace c \<or> c = CHR '','' \<or> c = CHR ''.'')"

definition matchable :: "char \<Rightarrow> bool" where
  "matchable c = (sepChar c \<or> toLowerChar c \<in> set ''andthe'')"

fun rchars :: "bool \<Rightarrow> regex \<Rightarrow> char \<Rightarrow> bool" where
  "rchars ic (Lit l) c = (c \<in> set l \<or> (ic \<and> toLowerChar c \<in> toLowerChar ` set l))"
| "rchars ic (One k) c = inClass k c"
| "rchars ic (Star k) c = inClass k c"
| "rchars ic (Plus k) c = inClass k c"
| "rchars ic WordBoundary c = False"
| "rchars ic EndOfInput c = False"
| "rchars ic (Seq r1 r2) c = (rchars ic r1 c \<or> rchars ic r2 c)"
| "rchars ic (Alt r1 r2) c = (rchars ic r1 c \<or> rchars ic r2 c)"

fun startsSep :: "regex \<Rightarrow> bool" where
  "startsSep (Lit l) = (case l of [] \<Rightarrow> False | x # xs \<Rightarrow> sepChar x)"
| "startsSep (Plus k) = (k = WhiteSpace)"
| "startsSep (Seq r1 r2) = startsSep r1"
| "startsSep r = False"

fun okRegex :: "regex \<Rightarrow> bool" where
  "okRegex (Lit l) = list_all (\<lambda>x. sepChar x \<or> x \<in> set ''andthe'') l"
| "okRegex (One k) = (k = WhiteSpace)"
| "okRegex (Star k) = (k = WhiteSpace)"
| "okRegex (Plus k) = (k = WhiteSpace)"
| "okRegex WordBoundary = True"
| "okRegex EndOfInput = True"
| "okRegex (Seq r1 r2) = (okRegex r1 \<and> okRegex r2)"
| "okRegex (Alt r1 r2) = (okRegex r1 \<and> okRegex r2)"

definition separatorRegex :: "regex \<Rightarrow> bool" where
  "separatorRegex r = (startsSep r \<and> okRegex r)"

definition hasRun :: "string \<Rightarrow> string \<Rightarrow> bool" where
  "hasRun run s = (\<exists>x y. s = x @ run @ y)"

definition solidRun :: "string \<Rightarrow> bool" where
  "solidRun run = (run \<noteq> [] \<and> \<not> matchable (hd run) \<and> (\<forall>c \<in> set run. \<not> sepChar c))"

section \<open>A notion used in the proofs about acyclic plans\<close>

text \<open>
  The place of an id in a list of ids: the number of ids before its first occurrence
  (the length of the list when it does not occur). A plan whose edges all lead from an
  agent to one listed later has no cycle.
\<close>

definition rankOf :: "string list \<Rightarrow> string \<Rightarrow> nat" where
  "rankOf ids x = length (takeWhile (\<lambda>i. i \<noteq> x) ids)"

section \<open>Properties of the validator\<close>

subsection \<open>The search always returns\<close>

lemma new_Set_aux: "set (fold set_add xs acc) = set acc \<union> set xs"
  by (induction xs arbitrary: acc) (auto simp: set_add_def)

lemma set_new_Set: "set (new_Set xs) = set xs"
  by (simp add: new_Set_def new_Set_aux)

lemma dfs_total:
  fixes U :: "string set"
  assumes fin: "finite U"
  shows "(\<And>n. set (neighbors adj n) \<subseteq> U) \<Longrightarrow> node \<in> U \<Longrightarrow> node \<notin> fst st \<Longrightarrow> card (U - fst st) \<le> f \<Longrightarrow>
           \<exists>b st'. hasCycle f adj node st = Some (b, st') \<and> fst st \<subseteq> fst st'"
    and "(\<And>n. set (neighbors adj n) \<subseteq> U) \<Longrightarrow> set ns \<subseteq> U \<Longrightarrow> card (U - fst st) \<le> f \<Longrightarrow>
           \<exists>b st'. forNeighbors f adj ns st = Some (b, st') \<and> fst st \<subseteq> fst st'"
proof (induction f adj node st and f adj ns st rule: hasCycle_forNeighbors.induct)
  case (1 adj node st)
  then have "card (U - fst st) > 0" using fin by (auto simp: card_gt_0_iff)
  with 1 show ?case by simp
next
  case (2 fuel adj node visited recStack)
  have "card (U - insert node visited) < card (U - visited)"
    using 2 fin by (intro psubset_card_mono) auto
  then have "card (U - fst (insert node visited, insert node recStack)) \<le> fuel"
    using 2 by simp
  from 2(1)[OF 2(2) 2(2) this] obtain b st' where
    r: "forNeighbors fuel adj (neighbors adj node) (insert node visited, insert node recStack) = Some (b, st')"
    and sub: "insert node visited \<subseteq> fst st'" by auto
  show ?case using r sub by (cases b; cases st') auto
next
  case (3 fuel adj st)
  then show ?case by auto
next
  case (4 fuel adj neighbor rest visited recStack)
  show ?case
  proof (cases "neighbor \<in> visited")
    case True
    then show ?thesis using 4 by auto
  next
    case False
    with 4 obtain b st' where r: "hasCycle fuel adj neighbor (visited, recStack) = Some (b, st')"
      and sub: "visited \<subseteq> fst st'" by fastforce
    show ?thesis
    proof (cases b)
      case True
      then show ?thesis using r sub False by auto
    next
      case False2: False
      have "card (U - fst st') \<le> card (U - visited)"
        using sub fin by (intro card_mono) auto
      then have c: "card (U - fst st') \<le> fuel" using 4 by simp
      have "set rest \<subseteq> U" using 4 by simp
      have rs: "set rest \<subseteq> U" using 4 by simp
      have "\<exists>b2 st2. forNeighbors fuel adj rest st' = Some (b2, st2) \<and> fst st' \<subseteq> fst st2"
        using "4.IH"(2)[of "(b, st')" b st', OF False _ _ _ "4.prems"(1) rs c] r False2 by simp
      then obtain b2 st2 where "forNeighbors fuel adj rest st' = Some (b2, st2)" "fst st' \<subseteq> fst st2"
        by auto
      then show ?thesis using r sub False False2 by auto
    qed
  qed
qed

lemma map_of_addEdge:
  "map_of (addEdge e adj) k =
     (case map_of adj k of
        None \<Rightarrow> None
      | Some ns \<Rightarrow> Some (if edge_from e = k then ns @ [edge_to e] else ns))"
  by (auto simp: addEdge_def update_conv' split: option.splits)

lemma map_of_fold_addEdge:
  "map_of (fold addEdge es adj) k =
     (case map_of adj k of
        None \<Rightarrow> None
      | Some ns \<Rightarrow> Some (ns @ map edge_to (filter (\<lambda>e. edge_from e = k) es)))"
proof (induction es arbitrary: adj)
  case Nil
  then show ?case by (simp split: option.splits)
next
  case (Cons e es)
  show ?case
    by (simp add: Cons.IH map_of_addEdge split: option.splits)
qed

lemma map_of_adjacency:
  "map_of (adjacency ids es) k =
     (if k \<in> set ids then Some (map edge_to (filter (\<lambda>e. edge_from e = k) es)) else None)"
proof -
  have h: "map_of (map (\<lambda>i. (i, [])) ids) k = (if k \<in> set ids then Some [] else None)"
    by (induction ids) auto
  show ?thesis
    by (simp add: adjacency_def map_of_fold_addEdge h)
qed

lemma neighbors_adjacency:
  "neighbors (adjacency ids es) k =
     (if k \<in> set ids then map edge_to (filter (\<lambda>e. edge_from e = k) es) else [])"
  by (simp add: neighbors_def map_of_adjacency)

lemma detectCycle_total_aux:
  fixes U :: "string set"
  assumes fin: "finite U" and nb: "\<And>n. set (neighbors adj n) \<subseteq> U"
  shows "set ids \<subseteq> U \<Longrightarrow> card (U - fst st) \<le> f \<Longrightarrow> \<exists>b. detectCycle f adj ids st = Some b"
proof (induction ids arbitrary: st)
  case Nil
  then show ?case by auto
next
  case (Cons i ids)
  obtain visited recStack where st: "st = (visited, recStack)" by (cases st)
  show ?case
  proof (cases "i \<in> visited")
    case True
    then show ?thesis using Cons st by simp
  next
    case False
    have "\<exists>b st'. hasCycle f adj i st = Some (b, st') \<and> fst st \<subseteq> fst st'"
      using dfs_total(1)[OF fin nb, of i st f] Cons.prems False st by simp
    then obtain b st' where r: "hasCycle f adj i st = Some (b, st')" and sub: "fst st \<subseteq> fst st'"
      by auto
    have "card (U - fst st') \<le> card (U - fst st)"
      using sub fin by (intro card_mono) auto
    then have "\<exists>b. detectCycle f adj ids st' = Some b"
      using Cons.IH[of st'] Cons.prems by simp
    then show ?thesis using r False st by (cases b) auto
  qed
qed

lemma detectCycle_total:
  "\<exists>b. detectCycle (Suc (length ids + length es)) (adjacency ids es) ids ({}, {}) = Some b"
proof -
  let ?U = "set ids \<union> set (map edge_to es)"
  have fin: "finite ?U" by simp
  have nb: "\<And>n. set (neighbors (adjacency ids es) n) \<subseteq> ?U"
    by (auto simp: neighbors_adjacency)
  have "card ?U \<le> card (set ids) + card (set (map edge_to es))"
    by (rule card_Un_le)
  also have "\<dots> \<le> length ids + length (map edge_to es)"
    by (intro add_mono card_length)
  finally have "card (?U - fst ({}::string set, {}::string set)) \<le> Suc (length ids + length es)"
    by simp
  from detectCycle_total_aux[OF fin nb _ this, of ids] show ?thesis by simp
qed

lemma validatePlan_total:
  "\<exists>cyc. validatePlan plan =
     Some \<lparr>ok = (planErrors plan @ (if cyc then [cycleError] else []) = []),
           errors = planErrors plan @ (if cyc then [cycleError] else []),
           warnings = planWarnings plan\<rparr>"
proof -
  obtain b where "detectCycle (dfsFuel plan) (adjacency (agentIds plan) (edges plan)) (agentIds plan) ({}, {}) = Some b"
    using detectCycle_total[of "agentIds plan" "edges plan"] by (auto simp: dfsFuel_def)
  then show ?thesis
    by (auto simp: validatePlan_def Let_def)
qed

subsection \<open>Cycles\<close>

lemma new_Set_distinct_aux: "distinct (acc @ xs) \<Longrightarrow> fold set_add xs acc = acc @ xs"
  by (induction xs arbitrary: acc) (auto simp: set_add_def)

lemma new_Set_distinct: "distinct xs \<Longrightarrow> new_Set xs = xs"
  using new_Set_distinct_aux[of "[]" xs] by (simp add: new_Set_def)

lemma cycleError_not_planError: "cycleError \<notin> set (planErrors plan)"
  by (auto simp: planErrors_def edgeErrors_def inputErrors_def cycleError_def
      split: if_splits option.splits)

lemma three_elements:
  assumes "length xs = 3" "set xs = {p, q, r}" "distinct [p, q, r]"
  shows "xs \<in> {[p, q, r], [p, r, q], [q, p, r], [q, r, p], [r, p, q], [r, q, p]}"
proof -
  from assms(1) obtain x y z where xs: "xs = [x, y, z]"
    by (auto simp: length_Suc_conv eval_nat_numeral)
  have d: "distinct xs"
    using assms by (intro card_distinct) auto
  have "x \<in> {p, q, r}" "y \<in> {p, q, r}" "z \<in> {p, q, r}"
    using assms(2) xs by auto
  then show ?thesis
    using d xs by auto
qed

lemma two_elements:
  assumes "length xs = 2" "set xs = {p, q}" "p \<noteq> q"
  shows "xs \<in> {[p, q], [q, p]}"
proof -
  from assms(1) obtain x y where xs: "xs = [x, y]"
    by (auto simp: length_Suc_conv eval_nat_numeral)
  have d: "distinct xs"
    using assms by (intro card_distinct) auto
  have "x \<in> {p, q}" "y \<in> {p, q}"
    using assms(2) xs by auto
  then show ?thesis
    using d xs by auto
qed

lemma cycle_neighbors:
  assumes d: "distinct [a, b, c]"
    and len: "length es = 3"
    and es: "set (map (\<lambda>e. (edge_from e, edge_to e)) es) = {(a, b), (b, c), (c, a)}"
    and ids: "set ids = {a, b, c}"
  shows "neighbors (adjacency ids es) a = [b] \<and> neighbors (adjacency ids es) b = [c] \<and>
         neighbors (adjacency ids es) c = [a]"
proof -
  have "map (\<lambda>e. (edge_from e, edge_to e)) es \<in>
      {[(a, b), (b, c), (c, a)], [(a, b), (c, a), (b, c)], [(b, c), (a, b), (c, a)],
       [(b, c), (c, a), (a, b)], [(c, a), (a, b), (b, c)], [(c, a), (b, c), (a, b)]}"
    using d by (intro three_elements[OF _ es]) (auto simp: len)
  then show ?thesis
    using d ids by (auto simp: neighbors_adjacency map_eq_Cons_conv)
qed

lemma chain_neighbors:
  assumes d: "distinct [a, b, c]"
    and len: "length es = 2"
    and es: "set (map (\<lambda>e. (edge_from e, edge_to e)) es) = {(a, b), (b, c)}"
    and ids: "set ids = {a, b, c}"
  shows "neighbors (adjacency ids es) a = [b] \<and> neighbors (adjacency ids es) b = [c] \<and>
         neighbors (adjacency ids es) c = []"
proof -
  have "map (\<lambda>e. (edge_from e, edge_to e)) es \<in> {[(a, b), (b, c)], [(b, c), (a, b)]}"
    using d by (intro two_elements[OF _ es]) (auto simp: len)
  then show ?thesis
    using d ids by (auto simp: neighbors_adjacency map_eq_Cons_conv)
qed

lemma detectCycle_three_cycle:
  assumes "distinct [a, b, c]"
    and "neighbors adj a = [b]" "neighbors adj b = [c]" "neighbors adj c = [a]"
    and "ids \<in> {[a, b, c], [a, c, b], [b, a, c], [b, c, a], [c, a, b], [c, b, a]}"
  shows "detectCycle (Suc (Suc (Suc (Suc (Suc (Suc (Suc 0))))))) adj ids ({}, {}) = Some True"
  using assms by (elim insertE emptyE) auto

lemma detectCycle_three_chain:
  assumes "distinct [a, b, c]"
    and "neighbors adj a = [b]" "neighbors adj b = [c]" "neighbors adj c = []"
    and "ids \<in> {[a, b, c], [a, c, b], [b, a, c], [b, c, a], [c, a, b], [c, b, a]}"
  shows "detectCycle (Suc (Suc (Suc (Suc (Suc (Suc 0)))))) adj ids ({}, {}) = Some False"
  using assms by (elim insertE emptyE) auto

lemma cycle_found_any_order:
  assumes d: "distinct [a, b, c]"
    and alen: "length (agents plan) = 3"
    and ids: "set (map agent_id (agents plan)) = {a, b, c}"
    and elen: "length (edges plan) = 3"
    and es: "set (map (\<lambda>e. (edge_from e, edge_to e)) (edges plan)) = {(a, b), (b, c), (c, a)}"
  shows "validatePlan plan =
     Some \<lparr>ok = False, errors = planErrors plan @ [cycleError], warnings = planWarnings plan\<rparr>"
proof -
  have perm: "map agent_id (agents plan) \<in> {[a, b, c], [a, c, b], [b, a, c], [b, c, a], [c, a, b], [c, b, a]}"
    using d by (intro three_elements[OF _ ids]) (auto simp: alen)
  then have dist: "distinct (map agent_id (agents plan))"
    using d by auto
  then have aid: "agentIds plan = map agent_id (agents plan)"
    by (simp add: agentIds_def new_Set_distinct)
  have "set (agentIds plan) = {a, b, c}"
    using ids by (simp only: aid)
  from cycle_neighbors[OF d elen es this]
  have n: "neighbors (adjacency (agentIds plan) (edges plan)) a = [b]"
    "neighbors (adjacency (agentIds plan) (edges plan)) b = [c]"
    "neighbors (adjacency (agentIds plan) (edges plan)) c = [a]"
    by simp_all
  have "length (agentIds plan) = 3"
    by (simp add: aid alen)
  then have fuel: "dfsFuel plan = Suc (Suc (Suc (Suc (Suc (Suc (Suc 0))))))"
    by (simp add: dfsFuel_def elen)
  have "agentIds plan \<in> {[a, b, c], [a, c, b], [b, a, c], [b, c, a], [c, a, b], [c, b, a]}"
    using perm by (simp only: aid)
  from detectCycle_three_cycle[OF d n this]
  have "detectCycle (dfsFuel plan) (adjacency (agentIds plan) (edges plan)) (agentIds plan) ({}, {}) = Some True"
    by (simp only: fuel)
  then show ?thesis
    by (simp add: validatePlan_def)
qed

lemma chain_accepted_any_order:
  assumes d: "distinct [a, b, c]"
    and alen: "length (agents plan) = 3"
    and ids: "set (map agent_id (agents plan)) = {a, b, c}"
    and elen: "length (edges plan) = 2"
    and es: "set (map (\<lambda>e. (edge_from e, edge_to e)) (edges plan)) = {(a, b), (b, c)}"
  shows "validatePlan plan =
     Some \<lparr>ok = (planErrors plan = []), errors = planErrors plan, warnings = planWarnings plan\<rparr>"
proof -
  have perm: "map agent_id (agents plan) \<in> {[a, b, c], [a, c, b], [b, a, c], [b, c, a], [c, a, b], [c, b, a]}"
    using d by (intro three_elements[OF _ ids]) (auto simp: alen)
  then have dist: "distinct (map agent_id (agents plan))"
    using d by auto
  then have aid: "agentIds plan = map agent_id (agents plan)"
    by (simp add: agentIds_def new_Set_distinct)
  have "set (agentIds plan) = {a, b, c}"
    using ids by (simp only: aid)
  from chain_neighbors[OF d elen es this]
  have n: "neighbors (adjacency (agentIds plan) (edges plan)) a = [b]"
    "neighbors (adjacency (agentIds plan) (edges plan)) b = [c]"
    "neighbors (adjacency (agentIds plan) (edges plan)) c = []"
    by simp_all
  have "length (agentIds plan) = 3"
    by (simp add: aid alen)
  then have fuel: "dfsFuel plan = Suc (Suc (Suc (Suc (Suc (Suc 0)))))"
    by (simp add: dfsFuel_def elen)
  have "agentIds plan \<in> {[a, b, c], [a, c, b], [b, a, c], [b, c, a], [c, a, b], [c, b, a]}"
    using perm by (simp only: aid)
  from detectCycle_three_chain[OF d n this]
  have "detectCycle (dfsFuel plan) (adjacency (agentIds plan) (edges plan)) (agentIds plan) ({}, {}) = Some False"
    by (simp only: fuel)
  then show ?thesis
    by (simp add: validatePlan_def Let_def)
qed

lemma no_dangling_planErrors:
  assumes "\<forall>e \<in> set (edges plan). edge_from e \<in> set (map agent_id (agents plan)) \<and> edge_to e \<in> set (map agent_id (agents plan))"
    and "\<forall>ag \<in> set (agents plan). \<forall>i \<in> set (inputs ag). \<forall>f. input_from i = Some f \<longrightarrow> f \<in> set (map agent_id (agents plan))"
  shows "planErrors plan = []"
  using assms
  by (auto simp: planErrors_def edgeErrors_def inputErrors_def agentIds_def set_new_Set split: option.splits)

text \<open>
  Claim C2. For three distinct agents A, B and C (in any order) with the edges A to B, B to
  C and C to A (in any order), \<open>validatePlan\<close> returns \<open>ok = False\<close> and the cycle
  error stands exactly once in the error list, whatever the other fields of the plan are.
  With the same agents and only the edges A to B and B to C, and no input that names an
  unknown agent, it returns \<open>ok = True\<close> with no error.
\<close>

theorem validatePlan_cycle_rejected_chain_accepted:
  assumes "distinct [a, b, c]"
    and "length (agents cyclic) = 3"
    and "set (map agent_id (agents cyclic)) = {a, b, c}"
    and "length (edges cyclic) = 3"
    and "set (map (\<lambda>e. (edge_from e, edge_to e)) (edges cyclic)) = {(a, b), (b, c), (c, a)}"
    and "agents chain = agents cyclic"
    and "length (edges chain) = 2"
    and "set (map (\<lambda>e. (edge_from e, edge_to e)) (edges chain)) = {(a, b), (b, c)}"
    and "\<forall>ag \<in> set (agents chain). \<forall>i \<in> set (inputs ag). \<forall>f. input_from i = Some f \<longrightarrow> f \<in> {a, b, c}"
  shows "(\<exists>r. validatePlan cyclic = Some r \<and> \<not> ok r \<and> cycleError \<in> set (errors r) \<and>
              count_list (errors r) cycleError = 1) \<and>
         (\<exists>r. validatePlan chain = Some r \<and> ok r \<and> errors r = [])"
proof
  have "count_list (planErrors cyclic) cycleError = 0"
    using cycleError_not_planError[of cyclic] by (simp add: count_list_0_iff)
  then show "\<exists>r. validatePlan cyclic = Some r \<and> \<not> ok r \<and> cycleError \<in> set (errors r) \<and>
              count_list (errors r) cycleError = 1"
    using cycle_found_any_order[OF assms(1,2,3,4,5)] by simp
next
  have len: "length (agents chain) = 3" and ids: "set (map agent_id (agents chain)) = {a, b, c}"
    using assms(2,3,6) by simp_all
  have "\<forall>e \<in> set (edges chain). (edge_from e, edge_to e) \<in> {(a, b), (b, c)}"
    using assms(8) by auto
  then have "\<forall>e \<in> set (edges chain). edge_from e \<in> set (map agent_id (agents chain)) \<and>
      edge_to e \<in> set (map agent_id (agents chain))"
    unfolding ids by auto
  moreover have "\<forall>ag \<in> set (agents chain). \<forall>i \<in> set (inputs ag). \<forall>f.
      input_from i = Some f \<longrightarrow> f \<in> set (map agent_id (agents chain))"
    unfolding ids using assms(9) .
  ultimately have "planErrors chain = []"
    by (rule no_dangling_planErrors)
  then show "\<exists>r. validatePlan chain = Some r \<and> ok r \<and> errors r = []"
    using chain_accepted_any_order[OF assms(1) len ids assms(7,8)] by simp
qed

theorem validatePlan_cycle_witness:
  "validatePlan (abcPlan [(''A'', ''B''), (''B'', ''C''), (''C'', ''A'')]) =
     Some \<lparr>ok = False, errors = [cycleError], warnings = []\<rparr> \<and>
   validatePlan (abcPlan [(''A'', ''B''), (''B'', ''C'')]) =
     Some \<lparr>ok = True, errors = [], warnings = []\<rparr>"
proof -
  have w: "planWarnings (abcPlan [(''A'', ''B''), (''B'', ''C''), (''C'', ''A'')]) = []"
    "planWarnings (abcPlan [(''A'', ''B''), (''B'', ''C'')]) = []"
    "planErrors (abcPlan [(''A'', ''B''), (''B'', ''C''), (''C'', ''A'')]) = []"
    by code_simp+
  have "(\<exists>r. validatePlan (abcPlan [(''A'', ''B''), (''B'', ''C''), (''C'', ''A'')]) = Some r \<and> \<not> ok r \<and>
            cycleError \<in> set (errors r) \<and> count_list (errors r) cycleError = 1) \<and>
        (\<exists>r. validatePlan (abcPlan [(''A'', ''B''), (''B'', ''C'')]) = Some r \<and> ok r \<and> errors r = [])"
    by (rule validatePlan_cycle_rejected_chain_accepted[of "''A''" "''B''" "''C''"])
       (simp_all add: abcPlan_def abcAgent_def)
  then show ?thesis
    using validatePlan_total[of "abcPlan [(''A'', ''B''), (''B'', ''C''), (''C'', ''A'')]"]
      validatePlan_total[of "abcPlan [(''A'', ''B''), (''B'', ''C'')]"] w
    by (auto split: if_splits)
qed

subsection \<open>The ok flag\<close>

text \<open>
  Claim C9. \<open>validatePlan\<close> returns a result on every plan, and in that result \<open>ok\<close> is
  true exactly when the error list is empty; the warnings play no part.
\<close>

theorem validatePlan_ok_iff_no_errors:
  "\<exists>r. validatePlan plan = Some r \<and> (ok r \<longleftrightarrow> errors r = [])"
  using validatePlan_total[of plan] by auto

theorem validatePlan_ok_iff_no_errors_witness:
  "\<exists>r. validatePlan support_triage = Some r \<and> (ok r \<longleftrightarrow> errors r = [])"
  by (rule validatePlan_ok_iff_no_errors)

subsection \<open>Warnings for outputs that no edge consumes\<close>

text \<open>
  The validator finds a consumed output through the key "id:name". When no agent id holds a
  colon the key determines both parts, and a warning is given exactly for an output of an
  agent with an outgoing edge whose name is the data of none of that agent's edges; an agent
  with no outgoing edge is never warned about.
\<close>

lemma takeWhile_colon: "CHR '':'' \<notin> set i \<Longrightarrow> takeWhile (\<lambda>c. c \<noteq> CHR '':'') (i @ CHR '':'' # n) = i"
  by (induction i) auto

lemma key_injective:
  assumes "CHR '':'' \<notin> set i" "CHR '':'' \<notin> set j" "i @ '':'' @ n = j @ '':'' @ m"
  shows "i = j \<and> n = m"
proof -
  have "takeWhile (\<lambda>c. c \<noteq> CHR '':'') (i @ '':'' @ n) = i"
    using assms(1) by (simp add: takeWhile_colon)
  moreover have "takeWhile (\<lambda>c. c \<noteq> CHR '':'') (j @ '':'' @ m) = j"
    using assms(2) by (simp add: takeWhile_colon)
  ultimately have "i = j" using assms(3) by simp
  then show ?thesis using assms(3) by simp
qed

lemma consumed_iff:
  assumes a: "CHR '':'' \<notin> set i"
    and es: "\<forall>e \<in> set (edges plan). CHR '':'' \<notin> set (edge_from e)"
  shows "i @ '':'' @ n \<in> set (consumedOutputs plan) \<longleftrightarrow>
         list_ex (\<lambda>e. edge_from e = i \<and> edge_data e = n) (edges plan)"
proof
  assume "i @ '':'' @ n \<in> set (consumedOutputs plan)"
  then obtain e where e: "e \<in> set (edges plan)" "i @ '':'' @ n = edge_from e @ '':'' @ edge_data e"
    by (auto simp: consumedOutputs_def set_new_Set)
  have "CHR '':'' \<notin> set (edge_from e)"
    using es e(1) by blast
  from key_injective[OF a this e(2)] e(1)
  show "list_ex (\<lambda>e. edge_from e = i \<and> edge_data e = n) (edges plan)"
    unfolding list_ex_iff by blast
next
  assume "list_ex (\<lambda>e. edge_from e = i \<and> edge_data e = n) (edges plan)"
  then obtain e where "e \<in> set (edges plan)" "edge_from e = i" "edge_data e = n"
    unfolding list_ex_iff by blast
  then show "i @ '':'' @ n \<in> set (consumedOutputs plan)"
    unfolding consumedOutputs_def set_new_Set by force
qed

lemma outputWarnings_without_colon:
  assumes "CHR '':'' \<notin> set (agent_id agent)"
    and "\<forall>e \<in> set (edges plan). CHR '':'' \<notin> set (edge_from e)"
  shows "outputWarnings plan agent output =
     (if hasOutgoingEdge plan agent \<and>
         \<not> list_ex (\<lambda>e. edge_from e = agent_id agent \<and> edge_data e = output_name output) (edges plan)
      then [''Agent '' @ sq @ agent_name agent @ sq @ '' output '' @ sq @ output_name output @
            sq @ '' is not consumed by any edge'']
      else [])"
  unfolding outputWarnings_def Let_def consumed_iff[OF assms]
  by simp

lemma terminal_agent_no_warning:
  "\<not> hasOutgoingEdge plan agent \<Longrightarrow> outputWarnings plan agent output = []"
  by (simp add: outputWarnings_def Let_def)

text \<open>
  Claim C4. With colons in the ids two different pairs of agent and output share a key:
  in \<open>colonPlan\<close> the agent "a:b" has an outgoing edge and its output "c" is the data of
  none of its edges, yet the edge from "a" with the data "b:c" makes the validator take it
  for consumed, and no warning is given.
\<close>

theorem validatePlan_colon_collision:
  "hasOutgoingEdge colonPlan (agents colonPlan ! 1) \<and>
   outputs (agents colonPlan ! 1) = [\<lparr>output_name = ''c''\<rparr>] \<and>
   \<not> list_ex (\<lambda>e. edge_from e = agent_id (agents colonPlan ! 1) \<and> edge_data e = ''c'') (edges colonPlan) \<and>
   validatePlan colonPlan = Some \<lparr>ok = True, errors = [], warnings = []\<rparr>"
  by code_simp

section \<open>Properties of the planner\<close>

subsection \<open>What the matcher consumes\<close>

lemma litMatch_consumes:
  "(p, rest) \<in> set (litMatch ic l (prev, s)) \<Longrightarrow>
     \<exists>m. s = m @ rest \<and> length m = length l \<and>
         (\<forall>c \<in> set m. c \<in> set l \<or> (ic \<and> toLowerChar c \<in> toLowerChar ` set l))"
proof (induction l arbitrary: prev s)
  case Nil
  then show ?case by simp
next
  case (Cons x l)
  show ?case
  proof (cases s)
    case Nil
    with Cons.prems show ?thesis by simp
  next
    case (Cons c cs)
    with Cons.prems have hd: "c = x \<or> (ic \<and> toLowerChar c = toLowerChar x)"
      and tl: "(p, rest) \<in> set (litMatch ic l (Some c, cs))"
      by (auto split: if_splits)
    from Cons.IH[OF tl] obtain m where m: "cs = m @ rest" "length m = length l"
      "\<forall>c \<in> set m. c \<in> set l \<or> (ic \<and> toLowerChar c \<in> toLowerChar ` set l)"
      by blast
    have "s = (c # m) @ rest \<and> length (c # m) = length (x # l) \<and>
        (\<forall>c' \<in> set (c # m). c' \<in> set (x # l) \<or> (ic \<and> toLowerChar c' \<in> toLowerChar ` set (x # l)))"
      using m hd Cons by auto
    then show ?thesis by blast
  qed
qed

lemma starMatch_consumes:
  "(p, rest) \<in> set (starMatch k (prev, s)) \<Longrightarrow> \<exists>m. s = m @ rest \<and> (\<forall>c \<in> set m. inClass k c)"
proof (induction s arbitrary: prev)
  case Nil
  then show ?case by simp
next
  case (Cons c cs)
  show ?case
  proof (cases "(p, rest) = (prev, c # cs)")
    case True
    then show ?thesis by simp
  next
    case False
    with Cons.prems have k: "inClass k c" and tl: "(p, rest) \<in> set (starMatch k (Some c, cs))"
      by (auto split: if_splits)
    from Cons.IH[OF tl] obtain m where "cs = m @ rest" "\<forall>c \<in> set m. inClass k c"
      by blast
    then have "c # cs = (c # m) @ rest \<and> (\<forall>c' \<in> set (c # m). inClass k c')"
      using k by simp
    then show ?thesis by blast
  qed
qed

lemma rmatch_consumes:
  "(p, rest) \<in> set (rmatch ic r (prev, s)) \<Longrightarrow> \<exists>m. s = m @ rest \<and> (\<forall>c \<in> set m. rchars ic r c)"
proof (induction r arbitrary: p rest prev s)
  case (Lit l)
  then show ?case using litMatch_consumes[of p rest ic l prev s] by auto
next
  case (One k)
  then show ?case by (cases s) (auto split: if_splits)
next
  case (Star k)
  then show ?case using starMatch_consumes[of p rest k prev s] by auto
next
  case (Plus k)
  show ?case
  proof (cases s)
    case Nil
    with Plus show ?thesis by simp
  next
    case (Cons c cs)
    with Plus have k: "inClass k c" and tl: "(p, rest) \<in> set (starMatch k (Some c, cs))"
      by (auto split: if_splits)
    from starMatch_consumes[OF tl] obtain m where "cs = m @ rest" "\<forall>c \<in> set m. inClass k c"
      by blast
    then have "s = (c # m) @ rest \<and> (\<forall>c' \<in> set (c # m). rchars ic (Plus k) c')"
      using k Cons by simp
    then show ?thesis by blast
  qed
next
  case WordBoundary
  then show ?case by (auto split: if_splits)
next
  case EndOfInput
  then show ?case by (auto split: if_splits)
next
  case (Seq r1 r2)
  from Seq.prems obtain p1 rest1 where 1: "(p1, rest1) \<in> set (rmatch ic r1 (prev, s))"
    and 2: "(p, rest) \<in> set (rmatch ic r2 (p1, rest1))"
    by auto
  from Seq.IH(1)[OF 1] obtain m1 where m1: "s = m1 @ rest1" "\<forall>c \<in> set m1. rchars ic r1 c"
    by blast
  from Seq.IH(2)[OF 2] obtain m2 where m2: "rest1 = m2 @ rest" "\<forall>c \<in> set m2. rchars ic r2 c"
    by blast
  have "s = (m1 @ m2) @ rest \<and> (\<forall>c \<in> set (m1 @ m2). rchars ic (Seq r1 r2) c)"
    using m1 m2 by auto
  then show ?case by blast
next
  case (Alt r1 r2)
  then show ?case by fastforce
qed

subsection \<open>Delimiters are made of separator characters\<close>

lemma map_of_zip_range: "map_of (zip xs ys) c = Some l \<Longrightarrow> l \<in> set ys"
  by (meson map_of_SomeD set_zip_rightD)

lemma lookup_or_self:
  "(case map_of (zip xs ys) c of None \<Rightarrow> c | Some l \<Rightarrow> l) = c \<or>
   (case map_of (zip xs ys) c of None \<Rightarrow> c | Some l \<Rightarrow> l) \<in> set ys"
  by (auto split: option.splits dest: map_of_zip_range)

lemma toLowerChar_cases: "toLowerChar c = c \<or> isLower (toLowerChar c)"
  unfolding toLowerChar_def isLower_def by (rule lookup_or_self)

lemma lookup_absent:
  "length xs = length ys \<Longrightarrow> c \<notin> set xs \<Longrightarrow> (case map_of (zip xs ys) c of None \<Rightarrow> c | Some l \<Rightarrow> l) = c"
  by (simp add: map_of_zip_is_None[THEN iffD2])

lemma toLowerChar_id: "\<not> isUpper c \<Longrightarrow> toLowerChar c = c"
  unfolding toLowerChar_def isUpper_def by (rule lookup_absent) simp_all

lemma lower_not_upper: "isLower c \<Longrightarrow> \<not> isUpper c"
  by (auto simp: isLower_def isUpper_def)

lemma toLowerChar_lower: "isLower c \<Longrightarrow> toLowerChar c = c"
  by (simp add: toLowerChar_id lower_not_upper)

lemma sepChar_not_letter: "sepChar c \<Longrightarrow> \<not> isLower c \<and> \<not> isUpper c"
  by (auto simp: sepChar_def isSpace_def isLower_def isUpper_def)

lemma toLowerChar_sep: "sepChar c \<Longrightarrow> toLowerChar c = c"
  by (simp add: toLowerChar_id sepChar_not_letter)

lemma sepChar_lower_eq:
  assumes "sepChar x" "toLowerChar c = toLowerChar x"
  shows "sepChar c"
proof -
  have "toLowerChar c = x"
    using assms by (simp add: toLowerChar_sep)
  then have "c = x"
    using toLowerChar_cases[of c] sepChar_not_letter[OF assms(1)] by auto
  then show ?thesis
    using assms(1) by simp
qed

lemma lower_not_sep: "isLower (toLowerChar c) \<Longrightarrow> \<not> sepChar c"
proof
  assume l: "isLower (toLowerChar c)" and s: "sepChar c"
  then have "isLower c"
    by (simp add: toLowerChar_sep)
  then show False
    using sepChar_not_letter[OF s] by simp
qed

lemma startsSep_consumes:
  "startsSep r \<Longrightarrow> (p, rest) \<in> set (rmatch ic r (prev, s)) \<Longrightarrow>
     \<exists>c m. s = c # m @ rest \<and> sepChar c"
proof (induction r arbitrary: p rest prev s)
  case (Lit l)
  then obtain x xs where l: "l = x # xs" "sepChar x"
    by (cases l) auto
  from Lit.prems(2) obtain c cs where s: "s = c # cs"
    by (cases s) (auto simp: l)
  from Lit.prems(2) have hd: "c = x \<or> (ic \<and> toLowerChar c = toLowerChar x)"
    and tl: "(p, rest) \<in> set (litMatch ic xs (Some c, cs))"
    by (auto simp: l s split: if_splits)
  from litMatch_consumes[OF tl] obtain m where "cs = m @ rest"
    by blast
  moreover have "sepChar c"
    using hd l(2) sepChar_lower_eq by blast
  ultimately show ?case
    using s by blast
next
  case (Plus k)
  then have k: "k = WhiteSpace" by simp
  from Plus.prems(2) obtain c cs where s: "s = c # cs"
    by (cases s) auto
  from Plus.prems(2) have sp: "isSpace c" and tl: "(p, rest) \<in> set (starMatch k (Some c, cs))"
    by (auto simp: s k split: if_splits)
  from starMatch_consumes[OF tl] obtain m where "cs = m @ rest"
    by blast
  then show ?case
    using s sp by (auto simp: sepChar_def)
next
  case (Seq r1 r2)
  from Seq.prems(2) obtain p1 rest1 where 1: "(p1, rest1) \<in> set (rmatch ic r1 (prev, s))"
    and 2: "(p, rest) \<in> set (rmatch ic r2 (p1, rest1))"
    by auto
  from Seq.IH(1)[OF _ 1] Seq.prems(1) obtain c m where m: "s = c # m @ rest1" "sepChar c"
    by auto
  from rmatch_consumes[OF 2] obtain m2 where "rest1 = m2 @ rest"
    by blast
  then have "s = c # (m @ m2) @ rest"
    using m by simp
  then show ?case
    using m(2) by blast
qed simp_all

lemma okRegex_matchable: "okRegex r \<Longrightarrow> rchars ic r c \<Longrightarrow> matchable c"
proof (induction r)
  case (Lit l)
  have low: "toLowerChar x = x" if "x \<in> set ''andthe''" for x
    using that by (intro toLowerChar_lower) (auto simp: isLower_def)
  from Lit.prems(2) consider "c \<in> set l" | x where "x \<in> set l" "toLowerChar c = toLowerChar x"
    by auto
  then show ?case
  proof cases
    case 1
    then have "sepChar c \<or> c \<in> set ''andthe''"
      using Lit.prems(1) by (simp add: list_all_iff)
    then show ?thesis
      using low[of c] by (auto simp: matchable_def)
  next
    case 2
    then have "sepChar x \<or> x \<in> set ''andthe''"
      using Lit.prems(1) by (simp add: list_all_iff)
    then show ?thesis
    proof
      assume "sepChar x"
      then show ?thesis
        using 2(2) sepChar_lower_eq by (auto simp: matchable_def)
    next
      assume x: "x \<in> set ''andthe''"
      then have "toLowerChar c \<in> set ''andthe''"
        using 2(2) low[OF x] by simp
      then show ?thesis
        by (simp add: matchable_def)
    qed
  qed
qed (auto simp: matchable_def sepChar_def)

lemma separator_match:
  assumes "separatorRegex r" "(p, rest) \<in> set (rmatch ic r (prev, s))"
  shows "\<exists>c m. s = c # m @ rest \<and> sepChar c \<and> (\<forall>c' \<in> set (c # m). matchable c')"
proof -
  from startsSep_consumes[OF _ assms(2)] assms(1) obtain c m where m: "s = c # m @ rest" "sepChar c"
    by (auto simp: separatorRegex_def)
  from rmatch_consumes[OF assms(2)] obtain m' where m': "s = m' @ rest" "\<forall>c \<in> set m'. rchars ic r c"
    by blast
  have "m' = c # m"
    using m(1) m'(1) by simp
  then have "\<forall>c' \<in> set (c # m). matchable c'"
    using m'(2) assms(1) okRegex_matchable by (auto simp: separatorRegex_def)
  then show ?thesis
    using m by blast
qed

lemma separator_matchLength:
  assumes "separatorRegex r"
  shows "matchLength ic r (prev, s) = None \<or>
         (\<exists>c m rest. s = c # m @ rest \<and> sepChar c \<and> (\<forall>c' \<in> set (c # m). matchable c') \<and>
            matchLength ic r (prev, s) = Some (Suc (length m)))"
proof (cases "rmatch ic r (prev, s)")
  case Nil
  then show ?thesis by (simp add: matchLength_def)
next
  case (Cons pr ms)
  obtain p rest where pr: "pr = (p, rest)" by (cases pr)
  have "(p, rest) \<in> set (rmatch ic r (prev, s))"
    using Cons pr by simp
  from separator_match[OF assms this] obtain c m where
    m: "s = c # m @ rest" "sepChar c" "\<forall>c' \<in> set (c # m). matchable c'"
    by blast
  have "matchLength ic r (prev, s) = Some (Suc (length m))"
    using Cons pr m(1) by (simp add: matchLength_def)
  then show ?thesis
    using m by blast
qed

lemma separatorRegex_parseSteps:
  "separatorRegex commaAndThen" "separatorRegex andThen" "separatorRegex thenWord"
  "separatorRegex sentenceBreak" "separatorRegex commaAnd" "separatorRegex commaSep"
  by (simp_all add: separatorRegex_def commaAndThen_def andThen_def thenWord_def sentenceBreak_def
      commaAnd_def commaSep_def sepChar_def)

subsection \<open>A solid run survives replacement, splitting and trimming\<close>

lemma no_match_at_solid:
  assumes "separatorRegex r" "\<not> sepChar c"
  shows "matchLength ic r (prev, c # cs) = None"
  using separator_matchLength[OF assms(1), of ic prev "c # cs"] assms(2) by auto

lemma replace_copies_run:
  assumes "separatorRegex r"
  shows "\<forall>c \<in> set run. \<not> sepChar c \<Longrightarrow> \<exists>y'. replaceFrom ic r rep 0 prev (run @ y) = run @ y'"
proof (induction run arbitrary: prev)
  case Nil
  show ?case by simp
next
  case (Cons c run)
  then obtain y' where "replaceFrom ic r rep 0 (Some c) (run @ y) = run @ y'"
    by auto
  then show ?case
    using no_match_at_solid[OF assms, of c ic prev "run @ y"] Cons.prems by simp
qed

lemma match_stops_before_run:
  assumes "x @ run @ y = m @ rest" "\<forall>c \<in> set m. matchable c" "run \<noteq> []" "\<not> matchable (hd run)"
  shows "length m \<le> length x"
proof (rule ccontr)
  assume "\<not> length m \<le> length x"
  then have lt: "length x < length m" by simp
  have "(x @ run @ y) ! length x = hd run"
    using assms(3) by (cases run) (simp_all add: nth_append)
  moreover have "(m @ rest) ! length x = m ! length x"
    using lt by (simp add: nth_append)
  ultimately have "m ! length x = hd run"
    using assms(1) by simp
  then have "hd run \<in> set m"
    using lt by (metis nth_mem)
  then show False
    using assms(2,4) by blast
qed

lemma replace_keeps_run:
  assumes sep: "separatorRegex r" and solid: "solidRun run"
  shows "skip \<le> length x \<Longrightarrow> \<exists>x' y'. replaceFrom ic r rep skip prev (x @ run @ y) = x' @ run @ y'"
proof (induction x arbitrary: skip prev)
  case Nil
  then have "skip = 0" by simp
  moreover obtain y' where "replaceFrom ic r rep 0 prev (run @ y) = run @ y'"
    using replace_copies_run[OF sep, of run ic rep prev y] solid by (auto simp: solidRun_def)
  ultimately have "replaceFrom ic r rep skip prev ([] @ run @ y) = [] @ run @ y'"
    by simp
  then show ?case by blast
next
  case (Cons c x)
  show ?case
  proof (cases skip)
    case (Suc k)
    then obtain x' y' where "replaceFrom ic r rep k (Some c) (x @ run @ y) = x' @ run @ y'"
      using Cons.IH[of k "Some c"] Cons.prems by auto
    then show ?thesis
      using Suc by auto
  next
    case 0
    show ?thesis
    proof (cases "matchLength ic r (prev, (c # x) @ run @ y)")
      case None
      obtain x' y' where "replaceFrom ic r rep 0 (Some c) (x @ run @ y) = x' @ run @ y'"
        using Cons.IH[of 0 "Some c"] by auto
      then have "replaceFrom ic r rep skip prev ((c # x) @ run @ y) = (c # x') @ run @ y'"
        using None 0 by simp
      then show ?thesis by blast
    next
      case (Some n)
      with separator_matchLength[OF sep, of ic prev "(c # x) @ run @ y"]
      obtain m rest where some: "x @ run @ y = m @ rest" "\<forall>c'' \<in> set m. matchable c''" "n = Suc (length m)"
        by auto
      have "length m \<le> length x"
        using some(1,2) solid by (intro match_stops_before_run[of x run y m rest]) (auto simp: solidRun_def)
      then obtain x' y' where "replaceFrom ic r rep (length m) (Some c) (x @ run @ y) = x' @ run @ y'"
        using Cons.IH[of "length m" "Some c"] by auto
      then have "replaceFrom ic r rep skip prev ((c # x) @ run @ y) = (rep @ x') @ run @ y'"
        using Some some(3) 0 by simp
      then show ?thesis by blast
    qed
  qed
qed

lemma replaceAll_keeps_run:
  assumes "separatorRegex r" "solidRun run" "hasRun run s"
  shows "hasRun run (replaceAll ic r rep s)"
proof -
  from assms(3) obtain x y where "s = x @ run @ y"
    by (auto simp: hasRun_def)
  then show ?thesis
    using replace_keeps_run[OF assms(1,2), of 0 x ic rep None y]
    by (auto simp: hasRun_def replaceAll_def)
qed

lemma split_first_piece: "\<exists>v rest. splitFrom ic r skip cur prev s = (cur @ v) # rest"
proof (induction s arbitrary: skip cur prev)
  case Nil
  show ?case by simp
next
  case (Cons c s)
  show ?case
  proof (cases skip)
    case (Suc k)
    then show ?thesis using Cons.IH[of k cur "Some c"] by simp
  next
    case 0
    show ?thesis
    proof (cases "matchLength ic r (prev, c # s)")
      case None
      obtain v rest where "splitFrom ic r 0 (cur @ [c]) (Some c) s = ((cur @ [c]) @ v) # rest"
        using Cons.IH[of 0 "cur @ [c]" "Some c"] by blast
      then have "splitFrom ic r skip cur prev (c # s) = (cur @ (c # v)) # rest"
        using None 0 by simp
      then show ?thesis by blast
    next
      case (Some n)
      show ?thesis
      proof (cases n)
        case n0: 0
        show ?thesis
        proof (cases "cur = []")
          case True
          obtain v rest where "splitFrom ic r 0 [c] (Some c) s = ([c] @ v) # rest"
            using Cons.IH[of 0 "[c]" "Some c"] by blast
          then have "splitFrom ic r skip cur prev (c # s) = (cur @ (c # v)) # rest"
            using Some n0 0 True by simp
          then show ?thesis by blast
        next
          case False
          then have "splitFrom ic r skip cur prev (c # s) = (cur @ []) # splitFrom ic r 0 [c] (Some c) s"
            using Some n0 0 by simp
          then show ?thesis by blast
        qed
      next
        case (Suc k)
        then have "splitFrom ic r skip cur prev (c # s) = (cur @ []) # splitFrom ic r k [] (Some c) s"
          using Some 0 by simp
        then show ?thesis by blast
      qed
    qed
  qed
qed

lemma split_copies_run:
  assumes "separatorRegex r"
  shows "\<forall>c \<in> set run. \<not> sepChar c \<Longrightarrow>
         \<exists>prev'. splitFrom ic r 0 cur prev (run @ y) = splitFrom ic r 0 (cur @ run) prev' y"
proof (induction run arbitrary: cur prev)
  case Nil
  show ?case by auto
next
  case (Cons c run)
  then obtain prev' where
    "splitFrom ic r 0 (cur @ [c]) (Some c) (run @ y) = splitFrom ic r 0 ((cur @ [c]) @ run) prev' y"
    by (meson list.set_intros(2))
  then have "splitFrom ic r 0 cur prev ((c # run) @ y) = splitFrom ic r 0 (cur @ c # run) prev' y"
    using no_match_at_solid[OF assms, of c ic prev "run @ y"] Cons.prems by simp
  then show ?case by blast
qed

lemma split_keeps_run:
  assumes sep: "separatorRegex r" and solid: "solidRun run"
  shows "skip \<le> length x \<Longrightarrow> \<exists>p \<in> set (splitFrom ic r skip cur prev (x @ run @ y)). hasRun run p"
proof (induction x arbitrary: skip cur prev)
  case Nil
  then have skip: "skip = 0" by simp
  obtain prev' where "splitFrom ic r 0 cur prev (run @ y) = splitFrom ic r 0 (cur @ run) prev' y"
    using split_copies_run[OF sep, of run ic cur prev y] solid by (auto simp: solidRun_def)
  moreover obtain v rest where "splitFrom ic r 0 (cur @ run) prev' y = ((cur @ run) @ v) # rest"
    using split_first_piece by blast
  ultimately have "cur @ run @ v \<in> set (splitFrom ic r skip cur prev ([] @ run @ y))"
    using skip by simp
  moreover have "hasRun run (cur @ run @ v)"
    unfolding hasRun_def by blast
  ultimately show ?case by blast
next
  case (Cons c x)
  show ?case
  proof (cases skip)
    case (Suc k)
    then show ?thesis
      using Cons.IH[of k cur "Some c"] Cons.prems by auto
  next
    case 0
    show ?thesis
    proof (cases "matchLength ic r (prev, (c # x) @ run @ y)")
      case None
      then show ?thesis
        using Cons.IH[of 0 "cur @ [c]" "Some c"] 0 by auto
    next
      case (Some n)
      with separator_matchLength[OF sep, of ic prev "(c # x) @ run @ y"]
      obtain m rest where some: "x @ run @ y = m @ rest" "\<forall>c'' \<in> set m. matchable c''" "n = Suc (length m)"
        by auto
      have "length m \<le> length x"
        using some(1,2) solid by (intro match_stops_before_run[of x run y m rest]) (auto simp: solidRun_def)
      then show ?thesis
        using Cons.IH[of "length m" "[]" "Some c"] Some some(3) 0 by auto
    qed
  qed
qed

lemma split_piece_with_run:
  assumes "separatorRegex r" "solidRun run" "hasRun run s"
  shows "\<exists>p \<in> set (split ic r s). hasRun run p"
proof -
  from assms(3) obtain x y where s: "s = x @ run @ y"
    by (auto simp: hasRun_def)
  then have "s \<noteq> []"
    using assms(2) by (auto simp: solidRun_def)
  then have "split ic r s = splitFrom ic r 0 [] None (x @ run @ y)"
    by (simp add: split_def s)
  then show ?thesis
    using split_keeps_run[OF assms(1,2), of 0 x ic "[]" None y] by simp
qed

lemma hasRun_dropWhile:
  assumes "run \<noteq> []" "\<not> P (hd run)" "hasRun run s"
  shows "hasRun run (dropWhile P s)"
proof -
  from assms(3) obtain x y where s: "s = x @ run @ y"
    by (auto simp: hasRun_def)
  obtain c cs where run: "run = c # cs"
    using assms(1) by (cases run) auto
  show ?thesis
  proof (cases "\<forall>a \<in> set x. P a")
    case True
    then have "dropWhile P s = [] @ run @ y"
      using assms(2) by (simp add: s run dropWhile_append)
    then show ?thesis
      unfolding hasRun_def by blast
  next
    case False
    then have "dropWhile P s = dropWhile P x @ run @ y"
      by (auto simp: s dropWhile_append)
    then show ?thesis
      unfolding hasRun_def by blast
  qed
qed

lemma hasRun_rev: "hasRun run s \<Longrightarrow> hasRun (rev run) (rev s)"
  unfolding hasRun_def by (metis append.assoc rev_append)

lemma hasRun_trim:
  assumes "run \<noteq> []" "\<forall>c \<in> set run. \<not> isSpace c" "hasRun run s"
  shows "hasRun run (trim s)"
proof -
  have "hasRun run (dropWhile isSpace s)"
    using assms by (intro hasRun_dropWhile) auto
  then have "hasRun (rev run) (rev (dropWhile isSpace s))"
    by (rule hasRun_rev)
  moreover have "\<not> isSpace (hd (rev run))"
    using assms(1,2) by (simp add: hd_rev)
  ultimately have "hasRun (rev run) (dropWhile isSpace (rev (dropWhile isSpace s)))"
    using assms(1) by (intro hasRun_dropWhile) auto
  then have "hasRun (rev (rev run)) (rev (dropWhile isSpace (rev (dropWhile isSpace s))))"
    by (rule hasRun_rev)
  then show ?thesis
    by (simp add: trim_def)
qed

lemma hasRun_length: "hasRun run s \<Longrightarrow> length run \<le> length s"
  by (auto simp: hasRun_def)

lemma startsWith_iff: "startsWith s p \<longleftrightarrow> (\<exists>y. s = p @ y)"
  by (induction s p rule: startsWith.induct) auto

lemma str_includes_hasRun: "str_includes s sub \<longleftrightarrow> hasRun sub s"
proof (induction s)
  case Nil
  show ?case by (auto simp: hasRun_def)
next
  case (Cons c s)
  have "hasRun sub (c # s) \<longleftrightarrow> (\<exists>y. c # s = sub @ y) \<or> hasRun sub s"
  proof
    assume "hasRun sub (c # s)"
    then obtain x y where xy: "c # s = x @ sub @ y"
      by (auto simp: hasRun_def)
    show "(\<exists>y. c # s = sub @ y) \<or> hasRun sub s"
    proof (cases x)
      case Nil
      then show ?thesis using xy by auto
    next
      case (Cons a x')
      then have "s = x' @ sub @ y" using xy by simp
      then show ?thesis unfolding hasRun_def by blast
    qed
  next
    assume "(\<exists>y. c # s = sub @ y) \<or> hasRun sub s"
    then show "hasRun sub (c # s)"
    proof
      assume "\<exists>y. c # s = sub @ y"
      then obtain y where "c # s = [] @ sub @ y" by auto
      then show ?thesis unfolding hasRun_def by blast
    next
      assume "hasRun sub s"
      then obtain x y where "s = x @ sub @ y" by (auto simp: hasRun_def)
      then have "c # s = (c # x) @ sub @ y" by simp
      then show ?thesis unfolding hasRun_def by blast
    qed
  qed
  then show ?case
    by (simp add: Cons.IH startsWith_iff)
qed

subsection \<open>A description with the keywords of a template has a step\<close>

lemma ne_Nil_of_mem: "x \<in> set xs \<Longrightarrow> xs \<noteq> []"
  by auto

lemma map_eq_middle:
  assumes "map f xs = a @ b @ c"
  shows "\<exists>x w y. xs = x @ w @ y \<and> map f w = b"
proof -
  let ?w = "take (length b) (drop (length a) xs)"
  have "xs = take (length a) xs @ ?w @ drop (length b) (drop (length a) xs)"
    by (simp only: append_take_drop_id)
  moreover have "map f ?w = take (length b) (drop (length a) (map f xs))"
    by (simp add: take_map drop_map)
  then have "map f ?w = b"
    using assms by simp
  ultimately show ?thesis
    by blast
qed

lemma keyword_gives_step:
  assumes inc: "str_includes (toLowerCase d) kw"
    and len: "3 < length kw"
    and low: "\<forall>c \<in> set kw. isLower c"
    and first: "hd kw \<notin> set ''andthe''"
  shows "parseSteps d \<noteq> []"
proof -
  have "\<exists>x' y'. map toLowerChar d = x' @ kw @ y'"
    using inc unfolding str_includes_hasRun hasRun_def toLowerCase_def .
  then obtain x' y' where "map toLowerChar d = x' @ kw @ y'"
    by (elim exE)
  from map_eq_middle[OF this] obtain x w y where d: "d = x @ w @ y" and w: "map toLowerChar w = kw"
    by (elim exE conjE)
  have lw: "length w = length kw"
    unfolding w[symmetric] by simp
  then have wne: "w \<noteq> []"
    using len by auto
  have nosep: "\<forall>c \<in> set w. \<not> sepChar c"
  proof
    fix c assume "c \<in> set w"
    then have "toLowerChar c \<in> set kw"
      unfolding w[symmetric] by simp
    then show "\<not> sepChar c"
      using low lower_not_sep by blast
  qed
  have "toLowerChar (hd w) = hd kw"
    using wne unfolding w[symmetric] by (simp add: hd_map)
  moreover have "\<not> sepChar (hd w)"
    using nosep wne by simp
  ultimately have "\<not> matchable (hd w)"
    using first unfolding matchable_def by simp
  then have solid: "solidRun w"
    using wne nosep by (simp add: solidRun_def)
  have "hasRun w d"
    unfolding hasRun_def d by blast
  then have "hasRun w (replaceAll True commaAndThen '', '' d)"
    by (rule replaceAll_keeps_run[OF separatorRegex_parseSteps(1) solid])
  then have "hasRun w (replaceAll True andThen '', '' (replaceAll True commaAndThen '', '' d))"
    by (rule replaceAll_keeps_run[OF separatorRegex_parseSteps(2) solid])
  then have "hasRun w (replaceAll True thenWord '', ''
      (replaceAll True andThen '', '' (replaceAll True commaAndThen '', '' d)))"
    by (rule replaceAll_keeps_run[OF separatorRegex_parseSteps(3) solid])
  then have "hasRun w (replaceAll False sentenceBreak '', '' (replaceAll True thenWord '', ''
      (replaceAll True andThen '', '' (replaceAll True commaAndThen '', '' d))))"
    by (rule replaceAll_keeps_run[OF separatorRegex_parseSteps(4) solid])
  then have "hasRun w (normalizeDelimiters d)"
    unfolding normalizeDelimiters_def
    by (rule replaceAll_keeps_run[OF separatorRegex_parseSteps(5) solid])
  then obtain p where p: "p \<in> set (split False commaSep (normalizeDelimiters d))" "hasRun w p"
    using split_piece_with_run[OF separatorRegex_parseSteps(6) solid] by blast
  have "\<forall>c \<in> set w. \<not> isSpace c"
    using nosep unfolding sepChar_def by blast
  then have "hasRun w (trim p)"
    using wne p(2) by (intro hasRun_trim)
  then have "length w \<le> length (trim p)"
    by (rule hasRun_length)
  then have "3 < length (trim p)"
    using len lw by simp
  then have "p \<in> set (filter (\<lambda>s. length (trim s) > 3) (split False commaSep (normalizeDelimiters d)))"
    using p(1) by simp
  then have "filter (\<lambda>s. length (trim s) > 3) (split False commaSep (normalizeDelimiters d)) \<noteq> []"
    by (rule ne_Nil_of_mem)
  then show ?thesis
    unfolding parseSteps_def map_is_Nil_conv .
qed

lemma template_description_has_steps:
  assumes "(str_includes (toLowerCase d) ''support'' \<and> str_includes (toLowerCase d) ''triage'') \<or>
           (str_includes (toLowerCase d) ''lead'' \<and> str_includes (toLowerCase d) ''qualif'') \<or>
           (str_includes (toLowerCase d) ''weekly'' \<and> str_includes (toLowerCase d) ''report'')"
  shows "parseSteps d \<noteq> []"
proof -
  have "parseSteps d \<noteq> []" if "str_includes (toLowerCase d) ''support''"
    by (rule keyword_gives_step[OF that]) (simp_all add: isLower_def)
  moreover have "parseSteps d \<noteq> []" if "str_includes (toLowerCase d) ''lead''"
    by (rule keyword_gives_step[OF that]) (simp_all add: isLower_def)
  moreover have "parseSteps d \<noteq> []" if "str_includes (toLowerCase d) ''weekly''"
    by (rule keyword_gives_step[OF that]) (simp_all add: isLower_def)
  ultimately show ?thesis
    using assms by blast
qed

subsection \<open>The plans of the planner\<close>

text \<open>
  Claim C1. For the description "Fetch data, then extract fields, then notify team." the
  planner returns three agents of the archetypes Retriever, Extractor and Notifier and two
  edges. Every edge carries the output slot of the agent it leaves, and the single input of
  the second and of the third agent is the output slot of the agent before it, with that
  agent's id as its source.
\<close>

theorem planFromDescription_three_step_chain:
  "(let p = planFromDescription ''Fetch data, then extract fields, then notify team.'' in
     map agent_type (agents p) = [Retriever, Extractor, Notifier] \<and>
     map agent_id (agents p) = [''agent-1'', ''agent-2'', ''agent-3''] \<and>
     map outputs (agents p) =
       [[\<lparr>output_name = ''data_output''\<rparr>], [\<lparr>output_name = ''extracted_info''\<rparr>],
        [\<lparr>output_name = ''notification''\<rparr>]] \<and>
     map inputs (agents p) =
       [[\<lparr>input_from = None, input_name = ''input_data''\<rparr>],
        [\<lparr>input_from = Some ''agent-1'', input_name = ''data_output''\<rparr>],
        [\<lparr>input_from = Some ''agent-2'', input_name = ''extracted_info''\<rparr>]] \<and>
     edges p =
       [\<lparr>edge_from = ''agent-1'', edge_to = ''agent-2'', edge_data = ''data_output''\<rparr>,
        \<lparr>edge_from = ''agent-2'', edge_to = ''agent-3'', edge_data = ''extracted_info''\<rparr>] \<and>
     map edge_data (edges p) = map (\<lambda>a. output_name (hd (outputs a))) (butlast (agents p)) \<and>
     map inputs (tl (agents p)) =
       map (\<lambda>a. [\<lparr>input_from = Some (agent_id a), input_name = output_name (hd (outputs a))\<rparr>])
         (butlast (agents p)))"
  by code_simp

lemma description_planFromSteps: "description (planFromSteps d steps) = d"
  by (simp add: planFromSteps_def split: prod.splits)

text \<open>
  Claim C5, as amended. The plan carries the description it was given unless the
  description holds both keywords of a canned template; then the plan is that template and
  its description is the template's own text.
\<close>

theorem planFromDescription_description:
  "description (planFromDescription d) =
     (if str_includes (toLowerCase d) ''support'' \<and> str_includes (toLowerCase d) ''triage''
      then description support_triage
      else if str_includes (toLowerCase d) ''lead'' \<and> str_includes (toLowerCase d) ''qualif''
      then description lead_qualification
      else if str_includes (toLowerCase d) ''weekly'' \<and> str_includes (toLowerCase d) ''report''
      then description weekly_report
      else d)"
  by (simp add: planFromDescription_def Let_def description_planFromSteps minimalPlan_def)

theorem planFromDescription_description_counterexample:
  "description (planFromDescription ''support triage'') \<noteq> ''support triage''"
  by code_simp

theorem planFromDescription_description_witness:
  "description (planFromDescription ''Fetch data, then extract fields, then notify team.'') =
     ''Fetch data, then extract fields, then notify team.'' \<and>
   description (planFromDescription ''Weekly report please'') =
     ''Fetch metrics from analytics and billing, summarize key changes, generate a short natural-language report, and email it to the team.''"
proof -
  have a: "\<not> str_includes (toLowerCase ''Fetch data, then extract fields, then notify team.'') ''support''"
    "\<not> str_includes (toLowerCase ''Fetch data, then extract fields, then notify team.'') ''lead''"
    "\<not> str_includes (toLowerCase ''Fetch data, then extract fields, then notify team.'') ''weekly''"
    "\<not> str_includes (toLowerCase ''Weekly report please'') ''support''"
    "\<not> str_includes (toLowerCase ''Weekly report please'') ''lead''"
    "str_includes (toLowerCase ''Weekly report please'') ''weekly''"
    "str_includes (toLowerCase ''Weekly report please'') ''report''"
    by code_simp+
  have b: "description weekly_report = ''Fetch metrics from analytics and billing, summarize key changes, generate a short natural-language report, and email it to the team.''"
    by (simp add: weekly_report_def)
  show ?thesis
    using planFromDescription_description[of "''Fetch data, then extract fields, then notify team.''"]
      planFromDescription_description[of "''Weekly report please''"] a b
    by simp
qed

lemma validatePlan_minimalPlan:
  "validatePlan (minimalPlan d) = Some \<lparr>ok = True, errors = [], warnings = []\<rparr>"
  by (simp add: validatePlan_def minimalPlan_def dfsFuel_def agentIds_def new_Set_def set_add_def
      adjacency_def neighbors_def planErrors_def planWarnings_def inputErrors_def outputWarnings_def
      hasOutgoingEdge_def consumedOutputs_def Let_def)

text \<open>
  Claim C8. When \<open>parseSteps\<close> finds no step, as for the empty description, the plan has
  exactly one agent, an Orchestrator, and no edge, and \<open>validatePlan\<close> accepts it with no
  error and no warning. (No canned template is chosen then: a description with the
  keywords of a template always has a step.)
\<close>

theorem planFromDescription_no_steps:
  assumes "parseSteps d = []"
  shows "map agent_type (agents (planFromDescription d)) = [Orchestrator] \<and>
         edges (planFromDescription d) = [] \<and>
         validatePlan (planFromDescription d) = Some \<lparr>ok = True, errors = [], warnings = []\<rparr>"
proof -
  have "\<not> ((str_includes (toLowerCase d) ''support'' \<and> str_includes (toLowerCase d) ''triage'') \<or>
           (str_includes (toLowerCase d) ''lead'' \<and> str_includes (toLowerCase d) ''qualif'') \<or>
           (str_includes (toLowerCase d) ''weekly'' \<and> str_includes (toLowerCase d) ''report''))"
    using template_description_has_steps[of d] assms by blast
  then have "planFromDescription d = minimalPlan d"
    using assms by (auto simp: planFromDescription_def Let_def)
  then show ?thesis
    by (simp add: validatePlan_minimalPlan) (simp add: minimalPlan_def)
qed

theorem planFromDescription_no_steps_witness:
  "map agent_type (agents (planFromDescription [])) = [Orchestrator] \<and>
   edges (planFromDescription []) = [] \<and>
   validatePlan (planFromDescription []) = Some \<lparr>ok = True, errors = [], warnings = []\<rparr>"
proof -
  have "parseSteps [] = []"
    by code_simp
  then show ?thesis
    by (rule planFromDescription_no_steps)
qed

section \<open>Properties of the diagram exporter\<close>

lemma sanitize_aux:
  "replaceFrom False (One NonAlnum) ''_'' 0 prev s = map (\<lambda>c. if isAlnum c then c else CHR ''_'') s"
proof (induction s arbitrary: prev)
  case Nil
  show ?case by simp
next
  case (Cons c cs)
  have "matchLength False (One NonAlnum) (prev, c # cs) = (if isAlnum c then None else Some (Suc 0))"
    by (simp add: matchLength_def)
  then show ?case
    by (simp add: Cons.IH)
qed

lemma sanitizeId_map: "sanitizeId i = map (\<lambda>c. if isAlnum c then c else CHR ''_'') i"
  by (simp add: sanitizeId_def replaceAll_def sanitize_aux)

text \<open>
  Claim C7. Node identifiers are sanitised (\<open>sanitizeId_map\<close>), but the label is emitted
  as it is: for an agent named a"b with the summary s[x] the diagram holds the double quote
  and the brackets inside the quoted label.
\<close>

theorem planToMermaid_label_not_escaped:
  "planToMermaid quotePlan =
     ''flowchart LR'' @ [CHR 0x0A, CHR 0x0A] @ ''  %% Nodes'' @ [CHR 0x0A] @
     ''  My_Agent['' @ dq @ ''a'' @ dq @ ''b'' @ bs @ ''ns[x]'' @ dq @ '']'' @ [CHR 0x0A, CHR 0x0A] @
     ''  %% Edges'' @ [CHR 0x0A, CHR 0x0A] @ ''  %% Styling'' @ [CHR 0x0A] @
     ''  style My_Agent fill:#D53F8C,color:#fff'' \<and>
   nodeLabel (hd (agents quotePlan)) = ''a'' @ dq @ ''b'' @ bs @ ''ns[x]''"
  by code_simp

section \<open>Properties of the layout engine\<close>

subsection \<open>Level groups and positions\<close>

lemma map_of_addToGroup:
  "map_of (addToGroup lv a g) l =
     (if getOr0 lv (agent_id a) = l
      then Some ((case map_of g l of None \<Rightarrow> [] | Some x \<Rightarrow> x) @ [a])
      else map_of g l)"
  by (auto simp: addToGroup_def Let_def update_conv' map_add_def split: option.splits)

lemma map_of_fold_addToGroup:
  "map_of (fold (addToGroup lv) ags g) l =
     (if filter (\<lambda>a. getOr0 lv (agent_id a) = l) ags = [] then map_of g l
      else Some ((case map_of g l of None \<Rightarrow> [] | Some x \<Rightarrow> x) @
                 filter (\<lambda>a. getOr0 lv (agent_id a) = l) ags))"
proof (induction ags arbitrary: g)
  case Nil
  show ?case by simp
next
  case (Cons a ags)
  show ?case
    by (simp add: Cons.IH map_of_addToGroup)
qed

lemma distinct_addToGroup:
  "distinct (map fst g) \<Longrightarrow> distinct (map fst (addToGroup lv a g))"
  by (auto simp: addToGroup_def Let_def distinct_update map_of_eq_None_iff split: option.splits)

lemma distinct_fold_addToGroup:
  "distinct (map fst g) \<Longrightarrow> distinct (map fst (fold (addToGroup lv) ags g))"
  by (induction ags arbitrary: g) (simp_all add: distinct_addToGroup)

lemma levelGroups_lookup:
  "map_of (levelGroups plan) l =
     (if filter (\<lambda>a. getOr0 (computeLevels plan) (agent_id a) = l) (agents plan) = [] then None
      else Some (filter (\<lambda>a. getOr0 (computeLevels plan) (agent_id a) = l) (agents plan)))"
  by (simp add: levelGroups_def map_of_fold_addToGroup)

lemma levelGroups_member:
  assumes "a \<in> set (agents plan)"
  shows "(getOr0 (computeLevels plan) (agent_id a),
          filter (\<lambda>b. getOr0 (computeLevels plan) (agent_id b) = getOr0 (computeLevels plan) (agent_id a))
            (agents plan)) \<in> set (levelGroups plan)"
proof -
  have "filter (\<lambda>b. getOr0 (computeLevels plan) (agent_id b) = getOr0 (computeLevels plan) (agent_id a))
          (agents plan) \<noteq> []"
    using assms by (auto simp: filter_empty_conv)
  then have "map_of (levelGroups plan) (getOr0 (computeLevels plan) (agent_id a)) =
      Some (filter (\<lambda>b. getOr0 (computeLevels plan) (agent_id b) = getOr0 (computeLevels plan) (agent_id a))
            (agents plan))"
    by (simp add: levelGroups_lookup)
  then show ?thesis
    by (rule map_of_SomeD)
qed

lemma nth_filter_take:
  "j < length xs \<Longrightarrow> P (xs ! j) \<Longrightarrow> filter P xs ! length (filter P (take j xs)) = xs ! j"
proof (induction xs arbitrary: j)
  case Nil
  then show ?case by simp
next
  case (Cons x xs)
  then show ?case by (cases j) auto
qed

lemma length_filter_take:
  "j < length xs \<Longrightarrow> P (xs ! j) \<Longrightarrow> length (filter P (take j xs)) < length (filter P xs)"
proof (induction xs arbitrary: j)
  case Nil
  then show ?case by simp
next
  case (Cons x xs)
  then show ?case by (cases j) auto
qed

lemma groupNodes_nth:
  assumes "k < length g"
  shows "groupNodes (l, g) ! k =
     mkNode (l * 380) ((- (int (length g) * 100 + (int (length g) - 1) * 40)) div 2 + int k * 140) (g ! k)"
  using assms
  by (simp add: groupNodes_def Let_def nth_enumerate_eq NODE_WIDTH_def HORIZONTAL_GAP_def
      NODE_HEIGHT_def VERTICAL_GAP_def)

lemma length_groupNodes: "length (groupNodes (l, g)) = length g"
  by (simp add: groupNodes_def Let_def)

lemma node_in_layout:
  assumes "(l, g) \<in> set (levelGroups plan)" "k < length g"
  shows "mkNode (l * 380) ((- (int (length g) * 100 + (int (length g) - 1) * 40)) div 2 + int k * 140) (g ! k)
           \<in> set (layout_nodes (planToReactFlow plan))"
proof -
  have "groupNodes (l, g) ! k \<in> set (groupNodes (l, g))"
    using assms(2) by (simp add: length_groupNodes)
  then show ?thesis
    using assms by (auto simp: planToReactFlow_def groupNodes_nth)
qed

lemma agent_node_in_layout:
  assumes j: "j < length (agents plan)"
  shows "(let level = (\<lambda>b. getOr0 (computeLevels plan) (agent_id b));
              a = agents plan ! j;
              n = length (filter (\<lambda>b. level b = level a) (agents plan));
              k = length (filter (\<lambda>b. level b = level a) (take j (agents plan)))
          in mkNode (level a * 380) ((- (int n * 100 + (int n - 1) * 40)) div 2 + int k * 140) a
               \<in> set (layout_nodes (planToReactFlow plan)))"
proof -
  let ?lv = "\<lambda>b. getOr0 (computeLevels plan) (agent_id b)"
  let ?a = "agents plan ! j"
  let ?P = "\<lambda>b. ?lv b = ?lv ?a"
  let ?g = "filter ?P (agents plan)"
  let ?k = "length (filter ?P (take j (agents plan)))"
  have mem: "(?lv ?a, ?g) \<in> set (levelGroups plan)"
    using j by (intro levelGroups_member) simp
  have k: "?k < length ?g"
    using j by (intro length_filter_take) simp_all
  have nth: "?g ! ?k = ?a"
    using j by (intro nth_filter_take) simp_all
  from node_in_layout[OF mem k] show ?thesis
    by (simp add: nth Let_def)
qed

lemma total_group_size_addToGroup:
  "sum_list (map (\<lambda>g. length (snd g)) (addToGroup lv a g)) = Suc (sum_list (map (\<lambda>g. length (snd g)) g))"
proof -
  have upd: "map_of g k = Some v \<Longrightarrow>
      sum_list (map (\<lambda>g. length (snd g)) (AList.update k (v @ [a]) g)) = Suc (sum_list (map (\<lambda>g. length (snd g)) g))"
    for k v
    by (induction g) (auto split: if_splits)
  show ?thesis
    by (auto simp: addToGroup_def Let_def upd split: option.splits)
qed

lemma total_group_size:
  "sum_list (map (\<lambda>g. length (snd g)) (fold (addToGroup lv) ags g)) =
     sum_list (map (\<lambda>g. length (snd g)) g) + length ags"
  by (induction ags arbitrary: g) (simp_all add: total_group_size_addToGroup)

lemma length_layout_nodes: "length (layout_nodes (planToReactFlow plan)) = length (agents plan)"
proof -
  have "length (concat (map groupNodes gs)) = sum_list (map (\<lambda>g. length (snd g)) gs)" for gs
    by (induction gs) (auto simp: length_groupNodes)
  then show ?thesis
    by (simp add: planToReactFlow_def levelGroups_def total_group_size)
qed





subsection \<open>Agents that never enter the queue\<close>

lemma degree_visitNeighbor:
  "getOr0 (fst (snd (visitNeighbor l n s))) k \<le> getOr0 (fst (snd s)) k"
  by (cases s) (auto simp: visitNeighbor_def Let_def getOr0_def update_conv')

lemma degree_fold:
  "getOr0 (fst (snd (fold (visitNeighbor l) ns s))) k \<le> getOr0 (fst (snd s)) k"
proof (induction ns arbitrary: s)
  case Nil
  show ?case by simp
next
  case (Cons n ns)
  have "getOr0 (fst (snd (fold (visitNeighbor l) ns (visitNeighbor l n s)))) k
          \<le> getOr0 (fst (snd (visitNeighbor l n s))) k"
    by (rule Cons.IH)
  also have "\<dots> \<le> getOr0 (fst (snd s)) k"
    by (rule degree_visitNeighbor)
  finally show ?case by simp
qed

lemma degree_processQueue:
  "getOr0 (fst (snd (processQueue adj s))) k \<le> getOr0 (fst (snd s)) k"
proof (induction adj s rule: processQueue.induct)
  case (1 adj deg levels)
  show ?case by simp
next
  case (2 adj current queue deg levels)
  have "getOr0 (fst (snd (fold (visitNeighbor (getOr0 levels current)) (neighbors adj current) (queue, deg, levels)))) k
          \<le> getOr0 deg k"
    using degree_fold[of _ _ "(queue, deg, levels)"] by simp
  with 2 show ?case by simp
qed

lemma queueReady_visitNeighbor: "queueReady s \<Longrightarrow> queueReady (visitNeighbor l n s)"
  by (cases s) (auto simp: queueReady_def visitNeighbor_def Let_def getOr0_def update_conv')

lemma queueReady_fold: "queueReady s \<Longrightarrow> queueReady (fold (visitNeighbor l) ns s)"
  by (induction ns arbitrary: s) (simp_all add: queueReady_visitNeighbor)

lemma dequeued_degree:
  "queueReady s \<Longrightarrow> k \<in> set (dequeued adj s) \<Longrightarrow> getOr0 (fst (snd (processQueue adj s))) k \<le> 0"
proof (induction adj s rule: processQueue.induct)
  case (1 adj deg levels)
  then show ?case by simp
next
  case (2 adj current queue deg levels)
  let ?s' = "fold (visitNeighbor (getOr0 levels current)) (neighbors adj current) (queue, deg, levels)"
  have "queueReady (queue, deg, levels)"
    using "2.prems"(1) by (simp add: queueReady_def)
  then have ready: "queueReady ?s'"
    by (rule queueReady_fold)
  show ?case
  proof (cases "k \<in> set (dequeued adj ?s')")
    case True
    then show ?thesis using "2.IH" ready by simp
  next
    case False
    then have "k = current" using "2.prems"(2) by simp
    then have "getOr0 deg k \<le> 0"
      using "2.prems"(1) by (simp add: queueReady_def)
    moreover have "getOr0 (fst (snd (processQueue adj ?s'))) k \<le> getOr0 (fst (snd ?s')) k"
      by (rule degree_processQueue)
    moreover have "getOr0 (fst (snd ?s')) k \<le> getOr0 deg k"
      using degree_fold[of _ _ "(queue, deg, levels)"] by simp
    ultimately show ?thesis by simp
  qed
qed

lemma queueReady_addRoot:
  "\<forall>k \<in> set (fst ql). getOr0 deg k \<le> 0 \<Longrightarrow> \<forall>k \<in> set (fst (addRoot deg a ql)). getOr0 deg k \<le> 0"
  by (auto simp: addRoot_def)

lemma queueReady_roots_aux:
  "\<forall>k \<in> set (fst ql). getOr0 deg k \<le> 0 \<Longrightarrow> \<forall>k \<in> set (fst (fold (addRoot deg) ags ql)). getOr0 deg k \<le> 0"
proof (induction ags arbitrary: ql)
  case Nil
  then show ?case by simp
next
  case (Cons a ags)
  have "\<forall>k \<in> set (fst (addRoot deg a ql)). getOr0 deg k \<le> 0"
    using Cons.prems by (rule queueReady_addRoot)
  then show ?case
    using Cons.IH[of "addRoot deg a ql"] by simp
qed

lemma queueReady_rootState: "queueReady (rootState plan)"
  using queueReady_roots_aux[of "([], [])" "layoutInDegree plan" "agents plan"]
  by (auto simp: queueReady_def rootState_def split: prod.splits)

lemma never_enqueued:
  "0 < getOr0 (remainingInDegree plan) k \<Longrightarrow> k \<notin> set (enqueuedNodes plan)"
  using dequeued_degree[OF queueReady_rootState, of k "layoutAdjacency plan" plan]
  by (auto simp: remainingInDegree_def enqueuedNodes_def)

lemma agent_has_node:
  assumes "a \<in> set (agents plan)"
  shows "\<exists>n \<in> set (layout_nodes (planToReactFlow plan)).
           node_data n = a \<and> node_id n = agent_id a \<and>
           position_x n = 380 * (case map_of (computeLevels plan) (agent_id a) of None \<Rightarrow> 0 | Some l \<Rightarrow> l)"
proof -
  from assms obtain j where j: "j < length (agents plan)" "agents plan ! j = a"
    by (auto simp: in_set_conv_nth)
  from agent_node_in_layout[OF j(1)] show ?thesis
    unfolding Let_def j(2) by (force simp: mkNode_def getOr0_def)
qed

text \<open>
  Claim C6, as amended. An agent whose in-degree is still positive when the queue is empty
  was never enqueued. It is placed all the same: the layout has one node per agent, and
  an agent is put in the column of its level, which is 0 when the loop gave it none.
\<close>

theorem unqueued_agents_are_placed:
  "(\<forall>k. 0 < getOr0 (remainingInDegree plan) k \<longrightarrow> k \<notin> set (enqueuedNodes plan)) \<and>
   length (layout_nodes (planToReactFlow plan)) = length (agents plan) \<and>
   (\<forall>a \<in> set (agents plan). \<exists>n \<in> set (layout_nodes (planToReactFlow plan)).
       node_data n = a \<and> node_id n = agent_id a \<and>
       position_x n = 380 * (case map_of (computeLevels plan) (agent_id a) of None \<Rightarrow> 0 | Some l \<Rightarrow> l))"
  using never_enqueued[of plan] length_layout_nodes[of plan] agent_has_node[of _ plan]
  by blast

theorem unqueued_agents_are_placed_counterexample:
  "enqueuedNodes (abcPlan [(''A'', ''B''), (''B'', ''A'')]) = [''C''] \<and>
   remainingInDegree (abcPlan [(''A'', ''B''), (''B'', ''A'')]) = [(''A'', 1), (''B'', 1), (''C'', 0)] \<and>
   computeLevels (abcPlan [(''A'', ''B''), (''B'', ''A'')]) = [(''C'', 0)] \<and>
   map (\<lambda>n. (node_id n, position_x n, position_y n))
     (layout_nodes (planToReactFlow (abcPlan [(''A'', ''B''), (''B'', ''A'')]))) =
     [(''A'', 0, -190), (''B'', 0, -50), (''C'', 0, 90)]"
  by code_simp

theorem unqueued_agents_are_placed_witness:
  "''A'' \<notin> set (enqueuedNodes (abcPlan [(''A'', ''B''), (''B'', ''A'')])) \<and>
   map_of (computeLevels (abcPlan [(''A'', ''B''), (''B'', ''A'')])) ''A'' = None \<and>
   (\<exists>n \<in> set (layout_nodes (planToReactFlow (abcPlan [(''A'', ''B''), (''B'', ''A'')]))).
      node_id n = ''A'' \<and> position_x n = 0)"
proof -
  have deg: "getOr0 (remainingInDegree (abcPlan [(''A'', ''B''), (''B'', ''A'')])) ''A'' = 1"
    by code_simp
  have lv: "map_of (computeLevels (abcPlan [(''A'', ''B''), (''B'', ''A'')])) ''A'' = None"
    by code_simp
  have ag: "abcAgent ''A'' None \<in> set (agents (abcPlan [(''A'', ''B''), (''B'', ''A'')]))"
    by (simp add: abcPlan_def)
  have id: "agent_id (abcAgent ''A'' None) = ''A''"
    by (simp add: abcAgent_def)
  show ?thesis
    using unqueued_agents_are_placed[of "abcPlan [(''A'', ''B''), (''B'', ''A'')]"] deg lv ag id
    by force
qed

section \<open>Every plan of the planner passes validation\<close>

subsection \<open>Agent ids are distinct\<close>

lemma digit_inj: "i < 10 \<Longrightarrow> j < 10 \<Longrightarrow> ''0123456789'' ! i = ''0123456789'' ! j \<Longrightarrow> i = j"
proof -
  have d: "distinct ''0123456789''"
    by simp
  assume "i < 10" "j < 10" "''0123456789'' ! i = ''0123456789'' ! j"
  then show "i = j"
    using d by (simp add: nth_eq_iff_index_eq)
qed

lemma string_of_nat_small: "n < 10 \<Longrightarrow> string_of_nat n = [''0123456789'' ! n]"
  by (subst string_of_nat.simps) simp

lemma string_of_nat_large:
  "\<not> n < 10 \<Longrightarrow> string_of_nat n = string_of_nat (n div 10) @ [''0123456789'' ! (n mod 10)]"
  by (subst string_of_nat.simps) simp

lemma string_of_nat_not_Nil: "string_of_nat n \<noteq> []"
  by (cases "n < 10") (simp_all add: string_of_nat_small string_of_nat_large)

lemma single_eq_snoc: "[x] = ys @ [y] \<longleftrightarrow> ys = [] \<and> x = y"
  by (cases ys) auto

lemma string_of_nat_inj: "string_of_nat m = string_of_nat n \<Longrightarrow> m = n"
proof (induction m arbitrary: n rule: string_of_nat.induct)
  case (1 m)
  show ?case
  proof (cases "m < 10")
    case True
    note m = string_of_nat_small[OF True]
    show ?thesis
    proof (cases "n < 10")
      case n: True
      have "''0123456789'' ! m = ''0123456789'' ! n"
        using "1.prems" by (simp add: m string_of_nat_small[OF n])
      then show ?thesis
        using True n by (rule digit_inj[rotated 2])
    next
      case False
      have "string_of_nat (n div 10) = []"
        using "1.prems" by (simp add: m string_of_nat_large[OF False] single_eq_snoc)
      then show ?thesis
        using string_of_nat_not_Nil by blast
    qed
  next
    case False
    note m = string_of_nat_large[OF False]
    show ?thesis
    proof (cases "n < 10")
      case True
      have "string_of_nat (m div 10) = []"
        using "1.prems"[symmetric] by (simp add: m string_of_nat_small[OF True] single_eq_snoc)
      then show ?thesis
        using string_of_nat_not_Nil by blast
    next
      case n: False
      have eq: "string_of_nat (m div 10) = string_of_nat (n div 10)"
        "''0123456789'' ! (m mod 10) = ''0123456789'' ! (n mod 10)"
        using "1.prems" by (simp_all add: m string_of_nat_large[OF n])
      have "m div 10 = n div 10"
        using "1.IH"[OF False eq(1)] .
      moreover have "m mod 10 = n mod 10"
        using eq(2) by (intro digit_inj) simp_all
      ultimately show ?thesis
        by (metis div_mult_mod_eq)
    qed
  qed
qed

lemma agentIdOf_inj: "agentIdOf i = agentIdOf j \<longleftrightarrow> i = j"
  by (auto simp: agentIdOf_def dest: string_of_nat_inj)

subsection \<open>The agents and edges of a chain\<close>

lemma agent_id_stepAgent: "agent_id (stepAgent steps i) = agentIdOf (Suc i)"
  by (simp add: stepAgent_def Let_def split: prod.splits)

lemma inputs_stepAgent:
  "inputs (stepAgent steps i) =
     (if i > 0 then [\<lparr>input_from = Some (agentIdOf i), input_name = prevOutputName steps i\<rparr>]
      else [\<lparr>input_from = None, input_name = ''input_data''\<rparr>])"
  by (simp add: stepAgent_def Let_def split: prod.splits)

lemma fold_planStep:
  "\<exists>schemas. fold (planStep steps) [0..<n] ([], [], []) =
     (map (stepAgent steps) [0..<n], concat (map (stepEdges steps) [0..<n]), schemas)"
proof (induction n)
  case 0
  show ?case by simp
next
  case (Suc n)
  then obtain schemas where eq: "fold (planStep steps) [0..<n] ([], [], []) =
     (map (stepAgent steps) [0..<n], concat (map (stepEdges steps) [0..<n]), schemas)"
    by blast
  have "fold (planStep steps) [0..<Suc n] ([], [], []) =
      planStep steps n (fold (planStep steps) [0..<n] ([], [], []))"
    by simp
  also have "\<dots> = planStep steps n
      (map (stepAgent steps) [0..<n], concat (map (stepEdges steps) [0..<n]), schemas)"
    by (simp only: eq)
  also have "\<dots> = (map (stepAgent steps) [0..<Suc n], concat (map (stepEdges steps) [0..<Suc n]),
      AList.update (generateOutputName (steps ! n) n)
        (generateFields (steps ! n) (fst (inferAgentType (steps ! n)))) schemas)"
    by (simp add: planStep_def)
  finally show ?case
    by blast
qed

lemma concat_stepEdges:
  "concat (map (stepEdges steps) [0..<n]) =
     map (\<lambda>i. \<lparr>edge_from = agentIdOf i, edge_to = agentIdOf (Suc i),
                 edge_data = generateOutputName (steps ! (i - 1)) (i - 1)\<rparr>) [1..<n]"
proof (induction n)
  case 0
  show ?case by simp
next
  case (Suc n)
  have split: "concat (map (stepEdges steps) [0..<Suc n]) =
      concat (map (stepEdges steps) [0..<n]) @ stepEdges steps n"
    by simp
  show ?case
  proof (cases "n = 0")
    case True
    then show ?thesis by (simp add: stepEdges_def)
  next
    case False
    then have "[1..<Suc n] = [1..<n] @ [n]"
      by (simp add: upt_Suc_append)
    then show ?thesis
      unfolding split Suc.IH using False by (simp add: stepEdges_def)
  qed
qed

lemma agents_planFromSteps:
  "agents (planFromSteps d steps) = map (stepAgent steps) [0..<length steps]"
  using fold_planStep[of steps "length steps"] by (auto simp: planFromSteps_def)

lemma edges_planFromSteps:
  "edges (planFromSteps d steps) =
     map (\<lambda>i. \<lparr>edge_from = agentIdOf i, edge_to = agentIdOf (Suc i),
                 edge_data = generateOutputName (steps ! (i - 1)) (i - 1)\<rparr>) [1..<length steps]"
  using fold_planStep[of steps "length steps"] by (auto simp: planFromSteps_def concat_stepEdges)

lemma ids_planFromSteps:
  "map agent_id (agents (planFromSteps d steps)) = map agentIdOf [1..<Suc (length steps)]"
proof -
  have "map agent_id (agents (planFromSteps d steps)) = map (\<lambda>i. agentIdOf (Suc i)) [0..<length steps]"
    by (simp add: agents_planFromSteps agent_id_stepAgent)
  also have "\<dots> = map agentIdOf (map Suc [0..<length steps])"
    by simp
  also have "map Suc [0..<length steps] = [1..<Suc (length steps)]"
    by (simp add: map_Suc_upt)
  finally show ?thesis .
qed

lemma agentIds_planFromSteps:
  "agentIds (planFromSteps d steps) = map agentIdOf [1..<Suc (length steps)]"
proof -
  have "distinct (map agentIdOf [1..<Suc (length steps)])"
    by (simp add: distinct_map inj_on_def agentIdOf_inj)
  then show ?thesis
    by (simp add: agentIds_def ids_planFromSteps new_Set_distinct)
qed

lemma planErrors_planFromSteps: "planErrors (planFromSteps d steps) = []"
proof (rule no_dangling_planErrors)
  show "\<forall>e\<in>set (edges (planFromSteps d steps)).
       edge_from e \<in> set (map agent_id (agents (planFromSteps d steps))) \<and>
       edge_to e \<in> set (map agent_id (agents (planFromSteps d steps)))"
    unfolding ids_planFromSteps edges_planFromSteps by auto
next
  show "\<forall>ag\<in>set (agents (planFromSteps d steps)). \<forall>i\<in>set (inputs ag). \<forall>f.
       input_from i = Some f \<longrightarrow> f \<in> set (map agent_id (agents (planFromSteps d steps)))"
    unfolding ids_planFromSteps
    by (auto simp: agents_planFromSteps inputs_stepAgent split: if_splits)
qed

subsection \<open>The search on a chain\<close>

lemma filter_eq_upt: "filter (\<lambda>i. i = j) [a..<b] = (if a \<le> j \<and> j < b then [j] else [])"
  by (induction b) auto

lemma neighbors_chain:
  "neighbors (adjacency (agentIds (planFromSteps d steps)) (edges (planFromSteps d steps))) (agentIdOf j) =
     (if 1 \<le> j \<and> j < length steps then [agentIdOf (Suc j)] else [])"
proof -
  have "filter (\<lambda>e. edge_from e = agentIdOf j) (edges (planFromSteps d steps)) =
      map (\<lambda>i. \<lparr>edge_from = agentIdOf i, edge_to = agentIdOf (Suc i),
                 edge_data = generateOutputName (steps ! (i - 1)) (i - 1)\<rparr>)
        (filter (\<lambda>i. i = j) [1..<length steps])"
    by (simp add: edges_planFromSteps filter_map comp_def agentIdOf_inj)
  then show ?thesis
    by (auto simp: neighbors_adjacency agentIds_planFromSteps filter_eq_upt agentIdOf_inj)
qed

lemma chain_hasCycle:
  assumes nb: "\<And>j. neighbors adj (nd j) = (if 1 \<le> j \<and> j < n then [nd (Suc j)] else [])"
    and inj: "\<And>i j. nd i = nd j \<longleftrightarrow> i = j"
  shows "1 \<le> k \<Longrightarrow> k \<le> n \<Longrightarrow> nd ` {k..n} \<inter> vis = {} \<Longrightarrow> nd ` {k..n} \<inter> rs = {} \<Longrightarrow> n - k < f \<Longrightarrow>
         hasCycle f adj (nd k) (vis, rs) = Some (False, (vis \<union> nd ` {k..n}, rs))"
proof (induction "n - k" arbitrary: k vis rs f)
  case 0
  then have k: "k = n" by simp
  obtain f' where f: "f = Suc f'"
    using "0.prems"(5) by (cases f) auto
  have "nd n \<notin> rs"
    using "0.prems"(4) k by auto
  then show ?case
    by (simp add: f k nb)
next
  case (Suc m)
  then have kn: "k < n" by simp
  obtain f' where f: "f = Suc f'"
    using Suc.prems(5) by (cases f) auto
  have sets: "{k..n} = insert k {Suc k..n}"
    using kn by auto
  have "nd (Suc k) \<in> nd ` {k..n}"
    using kn by auto
  then have notin: "nd (Suc k) \<notin> insert (nd k) vis"
    using Suc.prems(3) by (auto simp: inj)
  have d1: "nd ` {Suc k..n} \<inter> insert (nd k) vis = {}"
    using Suc.prems(3) by (auto simp: inj sets)
  have d2: "nd ` {Suc k..n} \<inter> insert (nd k) rs = {}"
    using Suc.prems(4) by (auto simp: inj sets)
  have rec: "hasCycle f' adj (nd (Suc k)) (insert (nd k) vis, insert (nd k) rs) =
      Some (False, (insert (nd k) vis \<union> nd ` {Suc k..n}, insert (nd k) rs))"
    using Suc.hyps(1)[of "Suc k" "insert (nd k) vis" "insert (nd k) rs" f'] Suc.hyps(2) Suc.prems kn d1 d2 f
    by simp
  have "nd k \<in> nd ` {k..n}"
    using kn by auto
  then have "nd k \<notin> rs"
    using Suc.prems(4) by auto
  then show ?case
    using kn Suc.prems(1) notin by (simp add: f nb rec sets)
qed

lemma detectCycle_all_visited:
  "set ids \<subseteq> vis \<Longrightarrow> detectCycle f adj ids (vis, rs) = Some False"
  by (induction ids) auto

lemma detectCycle_head:
  assumes "idl = i # ids" "hasCycle f adj i ({}, {}) = Some (False, (vis, rs))" "set ids \<subseteq> vis"
  shows "detectCycle f adj idl ({}, {}) = Some False"
  using assms by (simp add: detectCycle_all_visited)

lemma detectCycle_chain_within:
  assumes "steps \<noteq> []" "length steps \<le> f"
  shows "detectCycle f
           (adjacency (agentIds (planFromSteps d steps)) (edges (planFromSteps d steps)))
           (agentIds (planFromSteps d steps)) ({}, {}) = Some False"
proof -
  let ?n = "length steps"
  let ?adj = "adjacency (agentIds (planFromSteps d steps)) (edges (planFromSteps d steps))"
  have n: "1 \<le> ?n"
    using assms by (cases steps) auto
  have "[Suc 0..<Suc ?n] = Suc 0 # [Suc (Suc 0)..<Suc ?n]"
    using assms by (subst upt_conv_Cons) simp_all
  then have ids: "agentIds (planFromSteps d steps) = agentIdOf 1 # map agentIdOf [Suc (Suc 0)..<Suc ?n]"
    by (simp add: agentIds_planFromSteps)
  have fuel: "?n - 1 < f"
    using n assms(2) by arith
  have first: "hasCycle f ?adj (agentIdOf 1) ({}, {}) = Some (False, ({} \<union> agentIdOf ` {1..?n}, {}))"
    by (rule chain_hasCycle[where n = ?n, OF neighbors_chain agentIdOf_inj]) (use n fuel in auto)
  show ?thesis
    by (rule detectCycle_head[OF ids first]) auto
qed

lemma chain_overflow:
  assumes nb: "\<And>j. neighbors adj (nd j) = (if 1 \<le> j \<and> j < n then [nd (Suc j)] else [])"
    and inj: "\<And>i j. nd i = nd j \<longleftrightarrow> i = j"
  shows "1 \<le> k \<Longrightarrow> nd ` {k..n} \<inter> vis = {} \<Longrightarrow> f \<le> n - k \<Longrightarrow> hasCycle f adj (nd k) (vis, rs) = None"
proof (induction f arbitrary: k vis rs)
  case 0
  show ?case by simp
next
  case (Suc f)
  then have kn: "k < n" by simp
  have "nd (Suc k) \<in> nd ` {k..n}"
    using kn by auto
  then have notin: "nd (Suc k) \<notin> insert (nd k) vis"
    using Suc.prems(2) by (auto simp: inj)
  have sets: "{k..n} = insert k {Suc k..n}"
    using kn by auto
  have "nd ` {Suc k..n} \<inter> insert (nd k) vis = {}"
    using Suc.prems(2) by (auto simp: inj sets)
  then have "hasCycle f adj (nd (Suc k)) (insert (nd k) vis, insert (nd k) rs) = None"
    using Suc.IH[of "Suc k" "insert (nd k) vis" "insert (nd k) rs"] Suc.prems(3) by simp
  then show ?case
    using kn Suc.prems(1) notin by (simp add: nb)
qed

lemma validatePlanWithin_chain:
  assumes "steps \<noteq> []"
  shows "validatePlanWithin depth (planFromSteps d steps) =
           (if depth < length steps then None
            else Some \<lparr>ok = True, errors = [], warnings = planWarnings (planFromSteps d steps)\<rparr>)"
proof (cases "depth < length steps")
  case True
  let ?n = "length steps"
  let ?adj = "adjacency (agentIds (planFromSteps d steps)) (edges (planFromSteps d steps))"
  have "[Suc 0..<Suc ?n] = Suc 0 # [Suc (Suc 0)..<Suc ?n]"
    using assms by (subst upt_conv_Cons) simp_all
  then have ids: "agentIds (planFromSteps d steps) = agentIdOf 1 # map agentIdOf [Suc (Suc 0)..<Suc ?n]"
    by (simp add: agentIds_planFromSteps)
  have "hasCycle depth ?adj (agentIdOf 1) ({}, {}) = None"
    by (rule chain_overflow[where n = ?n, OF neighbors_chain agentIdOf_inj]) (use True in auto)
  then show ?thesis
    using True by (simp add: validatePlanWithin_def ids)
next
  case False
  then have "length steps \<le> depth" by simp
  from detectCycle_chain_within[OF assms this, of d] show ?thesis
    using False by (simp add: validatePlanWithin_def planErrors_planFromSteps)
qed

subsection \<open>The depth of the search\<close>

text \<open>A search that returns on a stack returns the same on every deeper stack.\<close>

lemma hasCycle_Suc:
  "hasCycle f adj node st = Some r \<Longrightarrow> hasCycle (Suc f) adj node st = Some r"
  "forNeighbors f adj ns st = Some r \<Longrightarrow> forNeighbors (Suc f) adj ns st = Some r"
proof (induction f adj node st and f adj ns st arbitrary: r and r rule: hasCycle_forNeighbors.induct)
  case (1 adj node st)
  then show ?case by simp
next
  case (2 fuel adj node visited recStack)
  then show ?case
    by (auto split: option.splits prod.splits bool.splits if_splits)
next
  case (3 fuel adj st)
  then show ?case by simp
next
  case (4 fuel adj neighbor rest visited recStack)
  then show ?case
    by (auto split: option.splits prod.splits bool.splits if_splits)
qed

lemma hasCycle_mono:
  "f \<le> g \<Longrightarrow> hasCycle f adj node st = Some r \<Longrightarrow> hasCycle g adj node st = Some r"
  by (induction g rule: dec_induct) (simp_all add: hasCycle_Suc(1))

lemma detectCycle_mono:
  "f \<le> g \<Longrightarrow> detectCycle f adj ids st = Some b \<Longrightarrow> detectCycle g adj ids st = Some b"
proof (induction ids arbitrary: st)
  case Nil
  then show ?case by simp
next
  case (Cons i ids)
  obtain visited recStack where st: "st = (visited, recStack)" by (cases st)
  show ?case
  proof (cases "i \<in> visited")
    case True
    then show ?thesis using Cons st by simp
  next
    case False
    with Cons.prems st obtain c st' where r: "hasCycle f adj i (visited, recStack) = Some (c, st')"
      by (auto split: option.splits)
    then have r': "hasCycle g adj i (visited, recStack) = Some (c, st')"
      using Cons.prems(1) by (rule hasCycle_mono[rotated])
    show ?thesis
      using Cons.prems Cons.IH[of st'] False st r r' by (cases c) auto
  qed
qed

lemma validatePlanWithin_mono:
  assumes "f \<le> g" "validatePlanWithin f plan = Some r"
  shows "validatePlanWithin g plan = Some r"
proof -
  from assms(2) obtain b where
    b: "detectCycle f (adjacency (agentIds plan) (edges plan)) (agentIds plan) ({}, {}) = Some b"
    by (auto simp: validatePlanWithin_def split: option.splits)
  have "detectCycle g (adjacency (agentIds plan) (edges plan)) (agentIds plan) ({}, {}) = Some b"
    using assms(1) b by (rule detectCycle_mono)
  then show ?thesis
    using assms(2) b by (simp add: validatePlanWithin_def)
qed

lemma validatePlanWithin_returns:
  assumes "validatePlanWithin depth plan = Some r"
  shows "validatePlan plan = Some r"
proof -
  let ?adj = "adjacency (agentIds plan) (edges plan)"
  from assms obtain b where b: "detectCycle depth ?adj (agentIds plan) ({}, {}) = Some b"
    by (auto simp: validatePlanWithin_def split: option.splits)
  obtain b' where b': "detectCycle (dfsFuel plan) ?adj (agentIds plan) ({}, {}) = Some b'"
    using detectCycle_total[of "agentIds plan" "edges plan"] by (auto simp: dfsFuel_def)
  have "detectCycle (max depth (dfsFuel plan)) ?adj (agentIds plan) ({}, {}) = Some b"
    by (rule detectCycle_mono[OF _ b]) simp
  moreover have "detectCycle (max depth (dfsFuel plan)) ?adj (agentIds plan) ({}, {}) = Some b'"
    by (rule detectCycle_mono[OF _ b']) simp
  ultimately have "b' = b"
    by simp
  then show ?thesis
    using assms b b' by (simp add: validatePlan_def validatePlanWithin_def)
qed

subsection \<open>References and cycles in the plans of the planner\<close>

lemma acyclic_rank:
  fixes f :: "'a \<Rightarrow> nat"
  assumes "\<And>x y. (x, y) \<in> r \<Longrightarrow> f x < f y"
  shows "acyclic r"
proof -
  have "(x, y) \<in> r\<^sup>+ \<Longrightarrow> f x < f y" for x y
    by (induction rule: trancl.induct) (auto dest: assms)
  then show ?thesis
    by (auto simp: acyclic_def)
qed

lemma templates_forward:
  "list_all (\<lambda>e. rankOf (map agent_id (agents support_triage)) (edge_from e) <
                 rankOf (map agent_id (agents support_triage)) (edge_to e)) (edges support_triage)"
  "list_all (\<lambda>e. rankOf (map agent_id (agents lead_qualification)) (edge_from e) <
                 rankOf (map agent_id (agents lead_qualification)) (edge_to e)) (edges lead_qualification)"
  "list_all (\<lambda>e. rankOf (map agent_id (agents weekly_report)) (edge_from e) <
                 rankOf (map agent_id (agents weekly_report)) (edge_to e)) (edges weekly_report)"
  by code_simp+

lemma forward_acyclic:
  assumes "list_all (\<lambda>e. rankOf ids (edge_from e) < rankOf ids (edge_to e)) (edges plan)"
  shows "acyclic (set (map (\<lambda>e. (edge_from e, edge_to e)) (edges plan)))"
  using assms by (intro acyclic_rank[of _ "rankOf ids"]) (auto simp: list_all_iff)

lemma chain_acyclic:
  "acyclic (set (map (\<lambda>e. (edge_from e, edge_to e)) (edges (planFromSteps d steps))))"
proof -
  have inj: "inj agentIdOf"
    by (simp add: inj_on_def agentIdOf_inj)
  show ?thesis
    by (rule acyclic_rank[of _ "the_inv agentIdOf"])
      (auto simp: edges_planFromSteps the_inv_f_f[OF inj])
qed

lemma templates_refs:
  "list_all (\<lambda>e. edge_from e \<in> set (map agent_id (agents support_triage)) \<and>
                 edge_to e \<in> set (map agent_id (agents support_triage))) (edges support_triage)"
  "list_all (\<lambda>e. edge_from e \<in> set (map agent_id (agents lead_qualification)) \<and>
                 edge_to e \<in> set (map agent_id (agents lead_qualification))) (edges lead_qualification)"
  "list_all (\<lambda>e. edge_from e \<in> set (map agent_id (agents weekly_report)) \<and>
                 edge_to e \<in> set (map agent_id (agents weekly_report))) (edges weekly_report)"
  "list_all (\<lambda>ag. list_all (\<lambda>i. case input_from i of None \<Rightarrow> True
                     | Some f \<Rightarrow> f \<in> set (map agent_id (agents support_triage))) (inputs ag))
     (agents support_triage)"
  "list_all (\<lambda>ag. list_all (\<lambda>i. case input_from i of None \<Rightarrow> True
                     | Some f \<Rightarrow> f \<in> set (map agent_id (agents lead_qualification))) (inputs ag))
     (agents lead_qualification)"
  "list_all (\<lambda>ag. list_all (\<lambda>i. case input_from i of None \<Rightarrow> True
                     | Some f \<Rightarrow> f \<in> set (map agent_id (agents weekly_report))) (inputs ag))
     (agents weekly_report)"
  by code_simp+

lemma chain_refs:
  "\<forall>e\<in>set (edges (planFromSteps d steps)).
       edge_from e \<in> set (map agent_id (agents (planFromSteps d steps))) \<and>
       edge_to e \<in> set (map agent_id (agents (planFromSteps d steps)))"
  "\<forall>ag\<in>set (agents (planFromSteps d steps)). \<forall>i\<in>set (inputs ag). \<forall>f.
       input_from i = Some f \<longrightarrow> f \<in> set (map agent_id (agents (planFromSteps d steps)))"
  unfolding ids_planFromSteps edges_planFromSteps
  by (auto simp: agents_planFromSteps inputs_stepAgent split: if_splits)

lemma minimalPlan_refs:
  "edges (minimalPlan d) = []"
  "\<forall>ag \<in> set (agents (minimalPlan d)). \<forall>i \<in> set (inputs ag). input_from i = None"
  by (simp_all add: minimalPlan_def)

lemma templates_within:
  "validatePlanWithin (length (agents support_triage)) support_triage =
     Some \<lparr>ok = True, errors = [],
           warnings = [''Agent '' @ sq @ ''Severity Classifier'' @ sq @ '' output '' @ sq @ ''severity'' @ sq @
                       '' is not consumed by any edge'']\<rparr>"
  "validatePlanWithin (length (agents lead_qualification)) lead_qualification =
     Some \<lparr>ok = True, errors = [], warnings = []\<rparr>"
  "validatePlanWithin (length (agents weekly_report)) weekly_report =
     Some \<lparr>ok = True, errors = [], warnings = []\<rparr>"
  by code_simp+

lemma minimalPlan_within:
  "validatePlanWithin (length (agents (minimalPlan d))) (minimalPlan d) =
     Some \<lparr>ok = True, errors = [], warnings = []\<rparr>"
  by (simp add: validatePlanWithin_def minimalPlan_def agentIds_def new_Set_def set_add_def
      adjacency_def neighbors_def planErrors_def planWarnings_def inputErrors_def outputWarnings_def
      hasOutgoingEdge_def consumedOutputs_def Let_def)

subsection \<open>Acceptance\<close>

lemma accepted_plan:
  assumes e: "\<forall>e \<in> set (edges plan). edge_from e \<in> set (map agent_id (agents plan)) \<and>
                edge_to e \<in> set (map agent_id (agents plan))"
    and i: "\<forall>ag \<in> set (agents plan). \<forall>i \<in> set (inputs ag). \<forall>f.
                input_from i = Some f \<longrightarrow> f \<in> set (map agent_id (agents plan))"
    and a: "acyclic (set (map (\<lambda>e. (edge_from e, edge_to e)) (edges plan)))"
    and w: "validatePlanWithin (length (agents plan)) plan = Some \<lparr>ok = True, errors = [], warnings = ws\<rparr>"
  shows "(\<forall>e \<in> set (edges plan). edge_from e \<in> set (map agent_id (agents plan)) \<and>
                edge_to e \<in> set (map agent_id (agents plan))) \<and>
         (\<forall>ag \<in> set (agents plan). \<forall>i \<in> set (inputs ag). \<forall>f.
                input_from i = Some f \<longrightarrow> f \<in> set (map agent_id (agents plan))) \<and>
         acyclic (set (map (\<lambda>e. (edge_from e, edge_to e)) (edges plan))) \<and>
         planErrors plan = [] \<and>
         (\<forall>depth r. validatePlanWithin depth plan = Some r \<longrightarrow> ok r \<and> errors r = []) \<and>
         (\<exists>r. validatePlanWithin (length (agents plan) + k) plan = Some r)"
proof -
  have v: "validatePlan plan = Some \<lparr>ok = True, errors = [], warnings = ws\<rparr>"
    using w by (rule validatePlanWithin_returns)
  have "ok r \<and> errors r = []" if "validatePlanWithin depth plan = Some r" for depth r
    using validatePlanWithin_returns[OF that] v by auto
  moreover have "validatePlanWithin (length (agents plan) + k) plan = Some \<lparr>ok = True, errors = [], warnings = ws\<rparr>"
    by (rule validatePlanWithin_mono[OF _ w]) simp
  moreover have "planErrors plan = []"
    using e i by (rule no_dangling_planErrors)
  ultimately show ?thesis
    using e i a by blast
qed

lemma planFromDescription_cases:
  obtains "planFromDescription d = support_triage"
  | "planFromDescription d = lead_qualification"
  | "planFromDescription d = weekly_report"
  | "planFromDescription d = minimalPlan d"
  | "parseSteps d \<noteq> []" "planFromDescription d = planFromSteps d (parseSteps d)"
proof -
  have "planFromDescription d = support_triage \<or> planFromDescription d = lead_qualification \<or>
      planFromDescription d = weekly_report \<or> planFromDescription d = minimalPlan d \<or>
      (parseSteps d \<noteq> [] \<and> planFromDescription d = planFromSteps d (parseSteps d))"
    by (simp add: planFromDescription_def Let_def)
  then show thesis
    using that by blast
qed

lemma planFromDescription_accepted:
  "(\<forall>e \<in> set (edges (planFromDescription d)).
       edge_from e \<in> set (map agent_id (agents (planFromDescription d))) \<and>
       edge_to e \<in> set (map agent_id (agents (planFromDescription d)))) \<and>
   (\<forall>ag \<in> set (agents (planFromDescription d)). \<forall>i \<in> set (inputs ag). \<forall>f.
       input_from i = Some f \<longrightarrow> f \<in> set (map agent_id (agents (planFromDescription d)))) \<and>
   acyclic (set (map (\<lambda>e. (edge_from e, edge_to e)) (edges (planFromDescription d)))) \<and>
   planErrors (planFromDescription d) = [] \<and>
   (\<forall>depth r. validatePlanWithin depth (planFromDescription d) = Some r \<longrightarrow> ok r \<and> errors r = []) \<and>
   (\<exists>r. validatePlanWithin (length (agents (planFromDescription d)) + k) (planFromDescription d) = Some r)"
proof (cases d rule: planFromDescription_cases)
  case 1
  have e: "\<forall>e \<in> set (edges support_triage). edge_from e \<in> set (map agent_id (agents support_triage)) \<and>
      edge_to e \<in> set (map agent_id (agents support_triage))"
    using templates_refs(1) by (simp add: list_all_iff)
  have i: "\<forall>ag \<in> set (agents support_triage). \<forall>i \<in> set (inputs ag). \<forall>f.
      input_from i = Some f \<longrightarrow> f \<in> set (map agent_id (agents support_triage))"
    using templates_refs(4) by (auto simp: list_all_iff split: option.splits)
  show ?thesis
    unfolding 1
    by (rule accepted_plan[OF e i forward_acyclic[OF templates_forward(1)] templates_within(1)])
next
  case 2
  have e: "\<forall>e \<in> set (edges lead_qualification). edge_from e \<in> set (map agent_id (agents lead_qualification)) \<and>
      edge_to e \<in> set (map agent_id (agents lead_qualification))"
    using templates_refs(2) by (simp add: list_all_iff)
  have i: "\<forall>ag \<in> set (agents lead_qualification). \<forall>i \<in> set (inputs ag). \<forall>f.
      input_from i = Some f \<longrightarrow> f \<in> set (map agent_id (agents lead_qualification))"
    using templates_refs(5) by (auto simp: list_all_iff split: option.splits)
  show ?thesis
    unfolding 2
    by (rule accepted_plan[OF e i forward_acyclic[OF templates_forward(2)] templates_within(2)])
next
  case 3
  have e: "\<forall>e \<in> set (edges weekly_report). edge_from e \<in> set (map agent_id (agents weekly_report)) \<and>
      edge_to e \<in> set (map agent_id (agents weekly_report))"
    using templates_refs(3) by (simp add: list_all_iff)
  have i: "\<forall>ag \<in> set (agents weekly_report). \<forall>i \<in> set (inputs ag). \<forall>f.
      input_from i = Some f \<longrightarrow> f \<in> set (map agent_id (agents weekly_report))"
    using templates_refs(6) by (auto simp: list_all_iff split: option.splits)
  show ?thesis
    unfolding 3
    by (rule accepted_plan[OF e i forward_acyclic[OF templates_forward(3)] templates_within(3)])
next
  case 4
  have e: "\<forall>e \<in> set (edges (minimalPlan d)). edge_from e \<in> set (map agent_id (agents (minimalPlan d))) \<and>
      edge_to e \<in> set (map agent_id (agents (minimalPlan d)))"
    by (simp add: minimalPlan_refs)
  have i: "\<forall>ag \<in> set (agents (minimalPlan d)). \<forall>i \<in> set (inputs ag). \<forall>f.
      input_from i = Some f \<longrightarrow> f \<in> set (map agent_id (agents (minimalPlan d)))"
    using minimalPlan_refs(2)[of d] by simp
  have a: "acyclic (set (map (\<lambda>e. (edge_from e, edge_to e)) (edges (minimalPlan d))))"
    by (simp add: minimalPlan_refs acyclic_def)
  show ?thesis
    unfolding 4 by (rule accepted_plan[OF e i a minimalPlan_within])
next
  case 5
  have w: "validatePlanWithin (length (agents (planFromSteps d (parseSteps d)))) (planFromSteps d (parseSteps d)) =
      Some \<lparr>ok = True, errors = [], warnings = planWarnings (planFromSteps d (parseSteps d))\<rparr>"
    by (simp add: validatePlanWithin_chain[OF 5(1)] agents_planFromSteps)
  show ?thesis
    unfolding 5(2) by (rule accepted_plan[OF chain_refs chain_acyclic w])
qed

text \<open>
  Claim C10. For every description the plan of \<open>planFromDescription\<close> has no edge and
  no input that names an unknown agent, and its edges form no cycle: the validator has no
  error to report. Whenever the validator returns, on a stack of whatever depth, its
  result has \<open>ok = True\<close> and no error; and it does return when the stack has room for
  one nested call of \<open>hasCycle\<close> per agent of the plan. (On a chain of \<open>n\<close> steps
  it returns exactly then: lemma \<open>validatePlanWithin_chain\<close>.) Warnings remain possible:
  the support-triage template is accepted with one warning, for the output "severity" of
  the Severity Classifier.
\<close>

theorem validatePlan_planFromDescription:
  "(let plan = planFromDescription d; ids = set (map agent_id (agents plan)) in
      (\<forall>e \<in> set (edges plan). edge_from e \<in> ids \<and> edge_to e \<in> ids) \<and>
      (\<forall>ag \<in> set (agents plan). \<forall>i \<in> set (inputs ag). \<forall>f. input_from i = Some f \<longrightarrow> f \<in> ids) \<and>
      acyclic (set (map (\<lambda>e. (edge_from e, edge_to e)) (edges plan))) \<and>
      planErrors plan = [] \<and>
      (\<forall>depth r. validatePlanWithin depth plan = Some r \<longrightarrow> ok r \<and> errors r = []) \<and>
      (\<exists>r. validatePlanWithin (length (agents plan) + k) plan = Some r)) \<and>
   validatePlan support_triage =
     Some \<lparr>ok = True, errors = [],
           warnings = [''Agent '' @ sq @ ''Severity Classifier'' @ sq @ '' output '' @ sq @ ''severity'' @ sq @
                       '' is not consumed by any edge'']\<rparr>"
  unfolding Let_def
  by (rule conjI[OF planFromDescription_accepted validatePlanWithin_returns[OF templates_within(1)]])

theorem validatePlan_planFromDescription_witness:
  "validatePlanWithin 3 (planFromDescription ''Fetch data, then extract fields, then notify team.'') =
     Some \<lparr>ok = True, errors = [], warnings = []\<rparr> \<and>
   ok \<lparr>ok = True, errors = [], warnings = []\<rparr> \<and>
   errors \<lparr>ok = True, errors = [], warnings = []\<rparr> = [] \<and>
   edge_from (hd (edges (planFromDescription ''Fetch data, then extract fields, then notify team.''))) \<in>
     set (map agent_id (agents (planFromDescription ''Fetch data, then extract fields, then notify team.'')))"
proof -
  let ?P = "planFromDescription ''Fetch data, then extract fields, then notify team.''"
  note T = validatePlan_planFromDescription[of "''Fetch data, then extract fields, then notify team.''" 0,
      THEN conjunct1, unfolded Let_def]
  have r: "validatePlanWithin 3 ?P = Some \<lparr>ok = True, errors = [], warnings = []\<rparr>"
    by code_simp
  have e: "hd (edges ?P) \<in> set (edges ?P)"
    by code_simp
  from T have "\<forall>depth r. validatePlanWithin depth ?P = Some r \<longrightarrow> ok r \<and> errors r = []"
    by blast
  from this[rule_format, OF r] have "ok \<lparr>ok = True, errors = [], warnings = []\<rparr> \<and>
      errors \<lparr>ok = True, errors = [], warnings = []\<rparr> = []" .
  moreover from T have "\<forall>e \<in> set (edges ?P). edge_from e \<in> set (map agent_id (agents ?P)) \<and>
      edge_to e \<in> set (map agent_id (agents ?P))"
    by blast
  from this[rule_format, OF e] have "edge_from (hd (edges ?P)) \<in> set (map agent_id (agents ?P))"
    by simp
  ultimately show ?thesis
    using r by simp
qed

end
